theory Spec2Isabelle
  imports Main "HOL-Library.Char_ord" "HOL-Library.List_Lexorder"
begin

section \<open>The bridge crossing puzzle: data model\<close>

text \<open>
  Embedding of \<^verbatim>\<open>assignment1/BridgeCrossingSolution.py\<close>.

  A configuration is the Python tuple \<^verbatim>\<open>(start_side, end_side, umbrella_pos)\<close>: two
  frozensets of people and the string \<^verbatim>\<open>'start'\<close> or \<^verbatim>\<open>'end'\<close>. The dictionary
  \<^verbatim>\<open>crossing_times\<close> is an association list (its keys are \<^verbatim>\<open>map fst\<close>, a lookup is
  \<^verbatim>\<open>map_of\<close>); durations and times are Python integers. The dictionaries
  \<^verbatim>\<open>visited_times\<close> and \<^verbatim>\<open>visited_states\<close> are maps from configurations to times,
  and \<^verbatim>\<open>float('inf')\<close> is the absent value \<open>None\<close>.
\<close>

datatype side = Start | End

type_synonym 'a config = "'a set \<times> 'a set \<times> side"

type_synonym 'a visited = "'a config \<rightharpoonup> int"

datatype py_error = KeyError | ValueError | IndexError

datatype ('s, 'r) outcome = Continue 's | Return 'r | Raise py_error

text \<open>The result triple \<^verbatim>\<open>(best_time, best_path, visited)\<close>; Python's \<^verbatim>\<open>None\<close> is \<open>None\<close>.\<close>

type_synonym 'a result = "int option \<times> 'a config list option \<times> 'a visited"

text \<open>\<^verbatim>\<open>initial_state = (frozenset(all_people), frozenset(), 'start')\<close>\<close>

definition all_people :: "('a \<times> int) list \<Rightarrow> 'a set" where
  "all_people crossing_times = set (map fst crossing_times)"

definition initial_state :: "('a \<times> int) list \<Rightarrow> 'a config" where
  "initial_state crossing_times = (all_people crossing_times, {}, Start)"

text \<open>
  \<^verbatim>\<open>itertools.combinations(iterable, r)\<close>: the \<open>r\<close>-element subsequences of the
  input, in lexicographic order of positions.
\<close>

fun combinations :: "'a list \<Rightarrow> nat \<Rightarrow> 'a list list" where
  "combinations xs 0 = [[]]"
| "combinations [] (Suc r) = []"
| "combinations (x # xs) (Suc r) = map ((#) x) (combinations xs r) @ combinations xs (Suc r)"

text \<open>
  The two nested \<^verbatim>\<open>for\<close> loops enumerate the groups of one and then of two people of
  \<^verbatim>\<open>move_from\<close>, each turned into a frozenset. The iteration order of a frozenset is
  not specified by Python; the model iterates in ascending order.
\<close>

definition groups :: "'a::linorder set \<Rightarrow> 'a set list" where
  "groups move_from =
     concat (map (\<lambda>num_people.
        if card move_from < num_people then []
        else map set (combinations (sorted_list_of_set move_from) num_people)) [1, 2])"

text \<open>\<^verbatim>\<open>max(crossing_times[person] for person in group)\<close>\<close>

definition trip_time :: "('a \<times> int) list \<Rightarrow> 'a set \<Rightarrow> py_error + int" where
  "trip_time crossing_times grp =
     (if \<exists>person\<in>grp. map_of crossing_times person = None then Inl KeyError
      else if grp = {} then Inl ValueError
      else Inr (Max ((\<lambda>person. the (map_of crossing_times person)) ` grp)))"

definition move_from :: "'a config \<Rightarrow> 'a set" where
  "move_from cfg = (case cfg of (start_side, end_side, umbrella_pos) \<Rightarrow>
     if umbrella_pos = Start then start_side else end_side)"

text \<open>The new configuration after the group \<open>grp\<close> has crossed.\<close>

definition apply_move :: "'a config \<Rightarrow> 'a set \<Rightarrow> 'a config" where
  "apply_move cfg grp = (case cfg of (start_side, end_side, umbrella_pos) \<Rightarrow>
     if umbrella_pos = Start then (start_side - grp, end_side \<union> grp, End)
     else (start_side \<union> grp, end_side - grp, Start))"

text \<open>\<^verbatim>\<open>new_config not in visited or new_total_time < visited[new_config]\<close>\<close>

definition improves :: "'a visited \<Rightarrow> 'a config \<Rightarrow> int \<Rightarrow> bool" where
  "improves visited new_config new_total_time =
     (case visited new_config of None \<Rightarrow> True | Some t \<Rightarrow> new_total_time < t)"

text \<open>\<^verbatim>\<open>current_time > visited.get(current_config, float('inf'))\<close>\<close>

definition stale :: "'a visited \<Rightarrow> 'a config \<Rightarrow> int \<Rightarrow> bool" where
  "stale visited current_config current_time =
     (case visited current_config of None \<Rightarrow> False | Some t \<Rightarrow> current_time > t)"

section \<open>The priority queue solver\<close>

text \<open>
  The heap holds pairs \<^verbatim>\<open>(current_time, path)\<close>. \<^verbatim>\<open>heapq\<close> is modelled by its
  contract, not by its array layout: the queue is the list of its entries in the order
  they were pushed, and \<^verbatim>\<open>heappop\<close> removes an entry of least time. Among entries of
  equal time Python compares the paths; the model takes the one pushed first. On an empty
  heap \<^verbatim>\<open>heappop\<close> raises \<^verbatim>\<open>IndexError\<close>.
\<close>

type_synonym 'a entry = "int \<times> 'a config list"

definition heappush :: "'a entry list \<Rightarrow> 'a entry \<Rightarrow> 'a entry list" where
  "heappush pq item = pq @ [item]"

fun pop_min :: "'a entry \<Rightarrow> 'a entry list \<Rightarrow> 'a entry \<times> 'a entry list" where
  "pop_min e [] = (e, [])"
| "pop_min e (x # xs) =
     (case pop_min x xs of (m, rest) \<Rightarrow>
        if fst e \<le> fst m then (e, x # xs) else (m, e # rest))"

definition heappop :: "'a entry list \<Rightarrow> py_error + ('a entry \<times> 'a entry list)" where
  "heappop pq = (case pq of [] \<Rightarrow> Inl IndexError | e # es \<Rightarrow> Inr (pop_min e es))"

text \<open>One pass of the body of the inner \<^verbatim>\<open>for group in combinations(...)\<close> loop.\<close>

definition bfs_relax ::
  "('a \<times> int) list \<Rightarrow> int \<Rightarrow> int \<Rightarrow> 'a config list \<Rightarrow> 'a config \<Rightarrow> 'a set \<Rightarrow>
   'a visited \<times> 'a entry list \<Rightarrow> py_error + ('a visited \<times> 'a entry list)" where
  "bfs_relax crossing_times time_limit current_time path cfg grp st =
     (case st of (visited_times, pq) \<Rightarrow>
      (case trip_time crossing_times grp of
        Inl e \<Rightarrow> Inl e
      | Inr trip \<Rightarrow>
          let new_total_time = current_time + trip in
          if new_total_time > time_limit then Inr (visited_times, pq)
          else
            let new_config = apply_move cfg grp in
            if improves visited_times new_config new_total_time
            then Inr (visited_times(new_config \<mapsto> new_total_time),
                      heappush pq (new_total_time, path @ [new_config]))
            else Inr (visited_times, pq)))"

fun bfs_moves ::
  "('a \<times> int) list \<Rightarrow> int \<Rightarrow> int \<Rightarrow> 'a config list \<Rightarrow> 'a config \<Rightarrow> 'a set list \<Rightarrow>
   'a visited \<times> 'a entry list \<Rightarrow> py_error + ('a visited \<times> 'a entry list)" where
  "bfs_moves crossing_times time_limit current_time path cfg [] st = Inr st"
| "bfs_moves crossing_times time_limit current_time path cfg (grp # rest) st =
     (case bfs_relax crossing_times time_limit current_time path cfg grp st of
        Inl e \<Rightarrow> Inl e
      | Inr st' \<Rightarrow> bfs_moves crossing_times time_limit current_time path cfg rest st')"

text \<open>One iteration of \<^verbatim>\<open>while pq:\<close>; the state is the queue and \<^verbatim>\<open>visited_times\<close>.\<close>

definition bfs_step ::
  "('a::linorder \<times> int) list \<Rightarrow> int \<Rightarrow> 'a entry list \<times> 'a visited \<Rightarrow>
   ('a entry list \<times> 'a visited, 'a result) outcome" where
  "bfs_step crossing_times time_limit st =
     (case st of (pq, visited_times) \<Rightarrow>
      if pq = [] then Return (None, None, visited_times)
      else
        (case heappop pq of
           Inl err \<Rightarrow> Raise err
         | Inr ((current_time, path), pq') \<Rightarrow>
            if path = [] then Raise IndexError
            else
              let current_config = last path in
              if fst current_config = {} then
                (if current_time \<le> time_limit
                 then Return (Some current_time, Some path, visited_times)
                 else Continue (pq', visited_times))
              else if stale visited_times current_config current_time
              then Continue (pq', visited_times)
              else
                (case bfs_moves crossing_times time_limit current_time path current_config
                        (groups (move_from current_config)) (visited_times, pq') of
                   Inl err \<Rightarrow> Raise err
                 | Inr (visited_times', pq'') \<Rightarrow> Continue (pq'', visited_times'))))"

partial_function (option) bfs_loop ::
  "('a::linorder \<times> int) list \<Rightarrow> int \<Rightarrow> 'a entry list \<times> 'a visited \<Rightarrow>
   (py_error + 'a result) option" where
  "bfs_loop crossing_times time_limit st =
     (case bfs_step crossing_times time_limit st of
        Return r \<Rightarrow> Some (Inr r)
      | Raise err \<Rightarrow> Some (Inl err)
      | Continue st' \<Rightarrow> bfs_loop crossing_times time_limit st')"

definition solve_bridge_problem_bfs ::
  "('a::linorder \<times> int) list \<Rightarrow> int \<Rightarrow> (py_error + 'a result) option" where
  "solve_bridge_problem_bfs crossing_times time_limit =
     (let initial = initial_state crossing_times
      in bfs_loop crossing_times time_limit ([(0, [initial])], [initial \<mapsto> 0]))"

section \<open>The depth-first solver\<close>

text \<open>
  The stack holds triples \<^verbatim>\<open>(current_time, path, current_config)\<close>; the head of the
  list is the top of the stack (the end of the Python list).
\<close>

type_synonym 'a dfs_entry = "int \<times> 'a config list \<times> 'a config"

text \<open>\<^verbatim>\<open>current_time < min_total_time\<close> and \<^verbatim>\<open>current_time >= min_total_time\<close>
  against a bound that starts as \<^verbatim>\<open>float('inf')\<close>.\<close>

definition below_best :: "int \<Rightarrow> int option \<Rightarrow> bool" where
  "below_best current_time min_total_time =
     (case min_total_time of None \<Rightarrow> True | Some b \<Rightarrow> current_time < b)"

definition dfs_relax ::
  "('a \<times> int) list \<Rightarrow> int \<Rightarrow> int \<Rightarrow> 'a config list \<Rightarrow> 'a config \<Rightarrow> 'a set \<Rightarrow>
   'a visited \<times> 'a dfs_entry list \<Rightarrow> py_error + ('a visited \<times> 'a dfs_entry list)" where
  "dfs_relax crossing_times time_limit current_time path cfg grp st =
     (case st of (visited_states, possible_moves) \<Rightarrow>
      (case trip_time crossing_times grp of
        Inl e \<Rightarrow> Inl e
      | Inr trip \<Rightarrow>
          let new_total_time = current_time + trip in
          if new_total_time > time_limit then Inr (visited_states, possible_moves)
          else
            let new_config = apply_move cfg grp in
            if improves visited_states new_config new_total_time
            then Inr (visited_states(new_config \<mapsto> new_total_time),
                      possible_moves @ [(new_total_time, path @ [new_config], new_config)])
            else Inr (visited_states, possible_moves)))"

fun dfs_moves ::
  "('a \<times> int) list \<Rightarrow> int \<Rightarrow> int \<Rightarrow> 'a config list \<Rightarrow> 'a config \<Rightarrow> 'a set list \<Rightarrow>
   'a visited \<times> 'a dfs_entry list \<Rightarrow> py_error + ('a visited \<times> 'a dfs_entry list)" where
  "dfs_moves crossing_times time_limit current_time path cfg [] st = Inr st"
| "dfs_moves crossing_times time_limit current_time path cfg (grp # rest) st =
     (case dfs_relax crossing_times time_limit current_time path cfg grp st of
        Inl e \<Rightarrow> Inl e
      | Inr st' \<Rightarrow> dfs_moves crossing_times time_limit current_time path cfg rest st')"

text \<open>
  \<^verbatim>\<open>for move in sorted(possible_moves, key=lambda x: x[0], reverse=True): stack.append(move)\<close>:
  a stable sort by descending time, pushed one by one, so the cheapest move ends on top.
\<close>

definition push_moves :: "'a dfs_entry list \<Rightarrow> 'a dfs_entry list \<Rightarrow> 'a dfs_entry list" where
  "push_moves possible_moves stack = rev (sort_key (\<lambda>move. - fst move) possible_moves) @ stack"

text \<open>One iteration of \<^verbatim>\<open>while stack:\<close>; the state is the stack, \<^verbatim>\<open>visited_states\<close>,
  \<^verbatim>\<open>min_total_time\<close> and \<^verbatim>\<open>best_path\<close>.\<close>

type_synonym 'a dfs_state =
  "'a dfs_entry list \<times> 'a visited \<times> int option \<times> 'a config list option"

definition dfs_step ::
  "('a::linorder \<times> int) list \<Rightarrow> int \<Rightarrow> 'a dfs_state \<Rightarrow> ('a dfs_state, 'a result) outcome" where
  "dfs_step crossing_times time_limit st =
     (case st of (stack, visited_states, min_total_time, best_path) \<Rightarrow>
      (case stack of
        [] \<Rightarrow> Return (min_total_time, best_path, visited_states)
      | (current_time, path, current_config) # stack' \<Rightarrow>
          if fst current_config = {} then
            (if below_best current_time min_total_time \<and> current_time \<le> time_limit
             then Continue (stack', visited_states, Some current_time, Some path)
             else Continue (stack', visited_states, min_total_time, best_path))
          else if \<not> below_best current_time min_total_time \<or> current_time > time_limit
          then Continue (stack', visited_states, min_total_time, best_path)
          else if stale visited_states current_config current_time
          then Continue (stack', visited_states, min_total_time, best_path)
          else
            (case dfs_moves crossing_times time_limit current_time path current_config
                    (groups (move_from current_config)) (visited_states, []) of
               Inl err \<Rightarrow> Raise err
             | Inr (visited_states', possible_moves) \<Rightarrow>
                 Continue (push_moves possible_moves stack', visited_states',
                           min_total_time, best_path))))"

partial_function (option) dfs_loop ::
  "('a::linorder \<times> int) list \<Rightarrow> int \<Rightarrow> 'a dfs_state \<Rightarrow> (py_error + 'a result) option" where
  "dfs_loop crossing_times time_limit st =
     (case dfs_step crossing_times time_limit st of
        Return r \<Rightarrow> Some (Inr r)
      | Raise err \<Rightarrow> Some (Inl err)
      | Continue st' \<Rightarrow> dfs_loop crossing_times time_limit st')"

definition solve_bridge_problem_dfs ::
  "('a::linorder \<times> int) list \<Rightarrow> int \<Rightarrow> (py_error + 'a result) option" where
  "solve_bridge_problem_dfs crossing_times time_limit =
     (let initial = initial_state crossing_times
      in dfs_loop crossing_times time_limit
           ([(0, [initial], initial)], [initial \<mapsto> 0], None, None))"

declare bfs_loop.simps [code]
declare dfs_loop.simps [code]

section \<open>The solution reporter\<close>

text \<open>
  \<^verbatim>\<open>print_bridge_solution\<close> writes lines to standard output. The model returns the
  lines written, as structured values (the formatting of numbers and names into text is
  left out), together with the exception that ended the call, if any:
  \<^verbatim>\<open>visited_times_map[...]\<close> raises \<^verbatim>\<open>KeyError\<close> on a configuration that the map
  does not hold. The reporter is modelled for people that are strings, which is what
  \<^verbatim>\<open>', '.join(sorted(list(moved_people)))\<close> requires of them; \<^verbatim>\<open>sorted\<close> is the
  ascending order of strings.
\<close>

datatype line =
    Header string
  | Found "int option"
  | Rule
  | StepLine nat "string list" string int
  | Elapsed int
  | StartSide "string list"
  | EndSide "string list"
  | NoSolution

text \<open>The people who moved between two consecutive configurations, and the arrow.\<close>

definition moved_people :: "'a config \<Rightarrow> 'a config \<Rightarrow> 'a set" where
  "moved_people start_config end_config =
     (if snd (snd start_config) = Start then fst start_config - fst end_config
      else fst end_config - fst start_config)"

definition direction :: "'a config \<Rightarrow> string" where
  "direction start_config = (if snd (snd start_config) = Start then ''-->'' else ''<--'')"

text \<open>The lines of one pass of \<^verbatim>\<open>for i in range(len(path) - 1)\<close>, given both times.\<close>

definition step_lines ::
  "nat \<Rightarrow> string config \<Rightarrow> string config \<Rightarrow> int \<Rightarrow> int \<Rightarrow> line list" where
  "step_lines i start_config end_config time_at_start time_at_step =
     [StepLine (i + 1) (sorted_list_of_set (moved_people start_config end_config))
        (direction start_config) (time_at_step - time_at_start),
      Elapsed time_at_step,
      StartSide (sorted_list_of_set (fst end_config)),
      EndSide (sorted_list_of_set (fst (snd end_config))),
      Rule]"

fun print_steps ::
  "string visited \<Rightarrow> nat \<Rightarrow> string config list \<Rightarrow> line list \<times> py_error option" where
  "print_steps visited_times_map i (start_config # end_config # rest) =
     (case visited_times_map end_config of
        None \<Rightarrow> ([], Some KeyError)
      | Some time_at_step \<Rightarrow>
         (case visited_times_map start_config of
            None \<Rightarrow> ([], Some KeyError)
          | Some time_at_start \<Rightarrow>
             (case print_steps visited_times_map (i + 1) (end_config # rest) of
                (lines, err) \<Rightarrow>
                  (step_lines i start_config end_config time_at_start time_at_step @ lines,
                   err))))"
| "print_steps visited_times_map i path = ([], None)"

definition print_bridge_solution ::
  "int option \<Rightarrow> string config list option \<Rightarrow> (string \<times> int) list \<Rightarrow> string visited \<Rightarrow>
   string \<Rightarrow> line list \<times> py_error option" where
  "print_bridge_solution total_time path times' visited_times_map algorithm_name =
     (case path of
        None \<Rightarrow> ([Header algorithm_name, NoSolution], None)
      | Some [] \<Rightarrow> ([Header algorithm_name, NoSolution], None)
      | Some (c # cs) \<Rightarrow>
         (case print_steps visited_times_map 0 (c # cs) of
            (lines, err) \<Rightarrow> (Header algorithm_name # Found total_time # Rule # lines, err)))"

section \<open>Configurations, moves and paths of the puzzle\<close>

text \<open>
  The notions the properties are stated with. A configuration is well formed when its two
  sides are disjoint and together hold everybody. A move takes one or two people from the
  side that holds the umbrella to the other side, and costs the duration of its slowest
  member. A path is a list of configurations, each reached from the one before by a move;
  it is complete when it leads from the initial configuration to one with an empty start
  side.
\<close>

definition wf_config :: "'a set \<Rightarrow> 'a config \<Rightarrow> bool" where
  "wf_config people cfg =
     (case cfg of (start_side, end_side, umbrella_pos) \<Rightarrow>
        start_side \<inter> end_side = {} \<and> start_side \<union> end_side = people)"

definition valid_group :: "'a config \<Rightarrow> 'a set \<Rightarrow> bool" where
  "valid_group cfg grp = ((card grp = 1 \<or> card grp = 2) \<and> grp \<subseteq> move_from cfg)"

definition valid_move :: "'a config \<Rightarrow> 'a config \<Rightarrow> bool" where
  "valid_move cfg cfg' =
     (valid_group cfg (moved_people cfg cfg') \<and> cfg' = apply_move cfg (moved_people cfg cfg'))"

definition group_cost :: "('a \<times> int) list \<Rightarrow> 'a set \<Rightarrow> int" where
  "group_cost crossing_times grp = Max ((\<lambda>person. the (map_of crossing_times person)) ` grp)"

fun valid_path :: "'a config list \<Rightarrow> bool" where
  "valid_path (cfg # cfg' # rest) = (valid_move cfg cfg' \<and> valid_path (cfg' # rest))"
| "valid_path path = True"

fun path_cost :: "('a \<times> int) list \<Rightarrow> 'a config list \<Rightarrow> int" where
  "path_cost crossing_times (cfg # cfg' # rest) =
     group_cost crossing_times (moved_people cfg cfg') + path_cost crossing_times (cfg' # rest)"
| "path_cost crossing_times path = 0"

definition complete_path :: "('a \<times> int) list \<Rightarrow> 'a config list \<Rightarrow> bool" where
  "complete_path crossing_times path =
     (path \<noteq> [] \<and> hd path = initial_state crossing_times \<and> valid_path path \<and>
      fst (last path) = {})"

definition nonneg_times :: "('a \<times> int) list \<Rightarrow> bool" where
  "nonneg_times crossing_times = list_all (\<lambda>(person, duration). 0 \<le> duration) crossing_times"

section \<open>Invariants of the two searches\<close>

text \<open>
  Both solvers are label-correcting searches: \<^verbatim>\<open>visited\<close> records for each configuration
  the least time found so far, and every improvement pushes an entry for the improved
  configuration. The invariant below holds for both; it is stated over the set \<open>E\<close> of
  pending entries \<open>(time, path)\<close>, the map \<open>v\<close> and the best complete time so far
  (\<open>None\<close> in the priority queue solver, which returns at its first solution).

  A pending path is good: it starts at the initial configuration, proceeds by valid
  moves and costs its recorded time, which is within the limit (the initial entry apart).
\<close>

definition good_path :: "('a \<times> int) list \<Rightarrow> int \<Rightarrow> 'a config list \<Rightarrow> int \<Rightarrow> bool" where
  "good_path ct limit p t =
     (p \<noteq> [] \<and> hd p = initial_state ct \<and> valid_path p \<and> path_cost ct p = t \<and>
      (t \<le> limit \<or> p = [initial_state ct]))"

text \<open>
  A configuration recorded at time \<open>t\<close> is relaxed when it is not a goal and every move
  from it that stays within the limit leads to a configuration recorded at a time that
  is at least as good.
\<close>

definition relaxed :: "('a \<times> int) list \<Rightarrow> int \<Rightarrow> 'a visited \<Rightarrow> 'a config \<Rightarrow> int \<Rightarrow> bool" where
  "relaxed ct limit v c t =
     (fst c \<noteq> {} \<and>
      (\<forall>g. valid_group c g \<and> t + group_cost ct g \<le> limit \<longrightarrow>
         (\<exists>t'. v (apply_move c g) = Some t' \<and> t' \<le> t + group_cost ct g)))"

text \<open>
  A recorded configuration is settled when an entry with its recorded time is pending,
  or its time exceeds the limit, or its time is no better than the best complete time,
  or it is relaxed.
\<close>

definition settled ::
  "('a \<times> int) list \<Rightarrow> int \<Rightarrow> 'a entry set \<Rightarrow> 'a visited \<Rightarrow> int option \<Rightarrow> 'a config \<Rightarrow> int \<Rightarrow> bool" where
  "settled ct limit E v best c t =
     ((\<exists>p. (t, p) \<in> E \<and> last p = c) \<or> limit < t \<or> (\<exists>b. best = Some b \<and> b \<le> t) \<or>
      relaxed ct limit v c t)"

text \<open>
  The invariant: the initial configuration is recorded; pending entries are good paths
  whose last configuration is recorded at a time no worse; every recorded time is the
  cost of a good path, and the configuration is settled. The set \<open>X\<close> exempts the
  configuration under expansion until all its moves have been tried.
\<close>

definition search_inv ::
  "('a \<times> int) list \<Rightarrow> int \<Rightarrow> ('a config \<times> int) set \<Rightarrow> 'a entry set \<Rightarrow> 'a visited \<Rightarrow>
   int option \<Rightarrow> bool" where
  "search_inv ct limit X E v best =
     ((\<exists>t0. v (initial_state ct) = Some t0 \<and> t0 \<le> 0) \<and>
      (\<forall>e \<in> E. good_path ct limit (snd e) (fst e) \<and>
         (\<exists>t'. v (last (snd e)) = Some t' \<and> t' \<le> fst e)) \<and>
      (\<forall>c t. v c = Some t \<longrightarrow>
         (\<exists>p. good_path ct limit p t \<and> last p = c) \<and>
         (settled ct limit E v best c t \<or> (c, t) \<in> X)))"

text \<open>The groups in \<open>dn\<close> have been tried from \<open>cfg\<close>, popped at time \<open>t0\<close>.\<close>

definition done_ok ::
  "('a \<times> int) list \<Rightarrow> int \<Rightarrow> 'a config \<Rightarrow> int \<Rightarrow> 'a set set \<Rightarrow> 'a visited \<Rightarrow> bool" where
  "done_ok ct limit cfg t0 dn v =
     (\<forall>g \<in> dn. t0 + group_cost ct g \<le> limit \<longrightarrow>
        (\<exists>t'. v (apply_move cfg g) = Some t' \<and> t' \<le> t0 + group_cost ct g))"

text \<open>\<open>v'\<close> is at least as good as \<open>v\<close> everywhere.\<close>

definition improved :: "'a visited \<Rightarrow> 'a visited \<Rightarrow> bool" where
  "improved v v' = (\<forall>c t. v c = Some t \<longrightarrow> (\<exists>t'. v' c = Some t' \<and> t' \<le> t))"

text \<open>
  Termination: with durations that are not negative, recorded times lie between 0 and
  the limit, and every push lowers one of them. The potential sums, over the finitely
  many well-formed configurations, the recorded time (or limit + 1 when there is none).
\<close>

definition slack :: "int \<Rightarrow> int option \<Rightarrow> nat" where
  "slack limit x = (case x of None \<Rightarrow> nat (limit + 1) | Some t \<Rightarrow> nat t)"

definition potential :: "('a \<times> int) list \<Rightarrow> int \<Rightarrow> 'a visited \<Rightarrow> nat" where
  "potential ct limit v = (\<Sum>c \<in> {c. wf_config (all_people ct) c}. slack limit (v c))"

text \<open>The entries of a list of stack entries, and the stack's own invariant: the third
  component of an entry is the last configuration of its path.\<close>

definition entries :: "'a dfs_entry list \<Rightarrow> 'a entry set" where
  "entries ms = (\<lambda>m. (fst m, fst (snd m))) ` set ms"

definition ends_ok :: "'a dfs_entry list \<Rightarrow> bool" where
  "ends_ok ms = (\<forall>m \<in> set ms. snd (snd m) = last (fst (snd m)))"

text \<open>
  The priority queue loop: its invariant, what a returned result satisfies (a returned
  time is the least time of the queue it was popped from), and the order in which its
  states decrease.
\<close>

definition bfs_inv :: "('a \<times> int) list \<Rightarrow> int \<Rightarrow> 'a entry list \<times> 'a visited \<Rightarrow> bool" where
  "bfs_inv ct limit st = search_inv ct limit {} (set (fst st)) (snd st) None"

definition bfs_post :: "('a \<times> int) list \<Rightarrow> int \<Rightarrow> 'a result \<Rightarrow> bool" where
  "bfs_post ct limit r =
     (case r of (bt, bp, v) \<Rightarrow>
        (case bt of
           None \<Rightarrow> bp = None \<and> search_inv ct limit {} {} v None
         | Some T \<Rightarrow>
             \<exists>path E. bp = Some path \<and> good_path ct limit path T \<and> fst (last path) = {} \<and>
               T \<le> limit \<and> search_inv ct limit {} E v None \<and> (\<forall>e \<in> E. T \<le> fst e)))"

definition bfs_rel ::
  "('a \<times> int) list \<Rightarrow> int \<Rightarrow> (('a entry list \<times> 'a visited) \<times> ('a entry list \<times> 'a visited)) set" where
  "bfs_rel ct limit =
     inv_image (less_than <*lex*> less_than) (\<lambda>st. (potential ct limit (snd st), length (fst st)))"

text \<open>
  The depth-first loop: the best time so far is the cost of the best path so far, a
  complete path within the limit.
\<close>

definition best_ok ::
  "('a \<times> int) list \<Rightarrow> int \<Rightarrow> int option \<Rightarrow> 'a config list option \<Rightarrow> bool" where
  "best_ok ct limit best bp =
     (case best of
        None \<Rightarrow> bp = None
      | Some b \<Rightarrow> \<exists>path. bp = Some path \<and> good_path ct limit path b \<and> fst (last path) = {} \<and>
          b \<le> limit)"

definition dfs_inv :: "('a \<times> int) list \<Rightarrow> int \<Rightarrow> 'a dfs_state \<Rightarrow> bool" where
  "dfs_inv ct limit st =
     (case st of (stack, v, best, bp) \<Rightarrow>
        search_inv ct limit {} (entries stack) v best \<and> ends_ok stack \<and> best_ok ct limit best bp)"

definition dfs_post :: "('a \<times> int) list \<Rightarrow> int \<Rightarrow> 'a result \<Rightarrow> bool" where
  "dfs_post ct limit r =
     (case r of (bt, bp, v) \<Rightarrow> search_inv ct limit {} {} v bt \<and> best_ok ct limit bt bp)"

definition dfs_rel :: "('a \<times> int) list \<Rightarrow> int \<Rightarrow> ('a dfs_state \<times> 'a dfs_state) set" where
  "dfs_rel ct limit =
     inv_image (less_than <*lex*> less_than)
       (\<lambda>st. (potential ct limit (fst (snd st)), length (fst st)))"

text \<open>
  What both solvers are proved to return: either no time and no path, and then no
  complete path stays within the limit; or a time within the limit with a complete path
  of that cost, and then no complete path is cheaper.
\<close>

definition optimal_result :: "('a \<times> int) list \<Rightarrow> int \<Rightarrow> 'a result \<Rightarrow> bool" where
  "optimal_result ct limit r =
     (case r of (bt, bp, v) \<Rightarrow>
        (case bt of
           None \<Rightarrow> bp = None \<and> (\<forall>q. complete_path ct q \<longrightarrow> limit < path_cost ct q)
         | Some T \<Rightarrow>
             (\<exists>path. bp = Some path \<and> complete_path ct path \<and> path_cost ct path = T) \<and>
             T \<le> limit \<and> (\<forall>q. complete_path ct q \<longrightarrow> T \<le> path_cost ct q)))"

text \<open>The part of a solver's answer that can be compared: the time and the path.\<close>

definition answer ::
  "(py_error + 'a result) option \<Rightarrow> (py_error + int option \<times> 'a config list option) option" where
  "answer r = map_option (map_sum id (\<lambda>res. (fst res, fst (snd res)))) r"

text \<open>The scenario of the puzzle: four people with durations 5, 10, 20 and 25.\<close>

definition family_times :: "(string \<times> int) list" where
  "family_times = [(''A'', 5), (''B'', 10), (''G'', 20), (''H'', 25)]"

text \<open>The canonical strategy: A and B cross, A returns, G and H cross, B returns, A and B cross.\<close>

definition canonical_path :: "string config list" where
  "canonical_path =
     [({''A'', ''B'', ''G'', ''H''}, {}, Start),
      ({''G'', ''H''}, {''A'', ''B''}, End),
      ({''A'', ''G'', ''H''}, {''B''}, Start),
      ({''A''}, {''B'', ''G'', ''H''}, End),
      ({''A'', ''B''}, {''G'', ''H''}, Start),
      ({}, {''A'', ''B'', ''G'', ''H''}, End)]"

text \<open>Two people with durations 1 and 2, and their direct crossing.\<close>

definition pair_times :: "(string \<times> int) list" where
  "pair_times = [(''A'', 1), (''B'', 2)]"


text \<open>
  The map of visited configurations that an exhausted search leaves behind. The initial
  configuration is recorded at time 0. Every recorded time is the cost of a path from
  the initial configuration to the configuration it is recorded for, within the limit
  (the initial configuration apart). And the search has missed nothing: the last
  configuration of every path from the initial configuration that costs at most the
  limit is recorded, at a time that is not above the cost of the path. So the map holds
  exactly the configurations that can be reached within the limit, each at its least
  cost.
\<close>

definition searched_map :: "('a \<times> int) list \<Rightarrow> int \<Rightarrow> 'a visited \<Rightarrow> bool" where
  "searched_map ct limit v =
     (v (initial_state ct) = Some 0 \<and>
      (\<forall>c t. v c = Some t \<longrightarrow>
         (t \<le> limit \<or> c = initial_state ct) \<and>
         (\<exists>p. p \<noteq> [] \<and> hd p = initial_state ct \<and> last p = c \<and> valid_path p \<and>
              path_cost ct p = t)) \<and>
      (\<forall>p. p \<noteq> [] \<and> hd p = initial_state ct \<and> valid_path p \<and> path_cost ct p \<le> limit \<longrightarrow>
         (\<exists>t. v (last p) = Some t \<and> t \<le> path_cost ct p)))"

text \<open>The first crossing of the canonical strategy.\<close>

definition first_crossing :: "string config list" where
  "first_crossing = [({''A'', ''B'', ''G'', ''H''}, {}, Start), ({''G'', ''H''}, {''A'', ''B''}, End)]"

text \<open>The arrival times along the canonical strategy.\<close>

definition canonical_times :: "string visited" where
  "canonical_times = map_of (zip canonical_path [0, 10, 15, 40, 50, 60])"

text \<open>The states of the priority queue loop that a run reaches.\<close>

inductive bfs_reachable ::
  "('a::linorder \<times> int) list \<Rightarrow> int \<Rightarrow> 'a entry list \<times> 'a visited \<Rightarrow> bool"
  for crossing_times time_limit where
  start: "bfs_reachable crossing_times time_limit
            ([(0, [initial_state crossing_times])], [initial_state crossing_times \<mapsto> 0])"
| step: "bfs_reachable crossing_times time_limit st \<Longrightarrow>
         bfs_step crossing_times time_limit st = Continue st' \<Longrightarrow>
         bfs_reachable crossing_times time_limit st'"

section \<open>Proofs\<close>

subsection \<open>Groups\<close>

lemma combinations_props:
  "ys \<in> set (combinations xs k) \<Longrightarrow> length ys = k \<and> set ys \<subseteq> set xs \<and> (distinct xs \<longrightarrow> distinct ys)"
proof (induction xs k arbitrary: ys rule: combinations.induct)
  case (1 xs)
  then show ?case by simp
next
  case (2 r)
  then show ?case by simp
next
  case (3 x xs r)
  from "3.prems" consider (a) zs where "ys = x # zs" "zs \<in> set (combinations xs r)"
    | (b) "ys \<in> set (combinations xs (Suc r))"
    by auto
  then show ?case
  proof cases
    case a
    with "3.IH"(1)[of zs] show ?thesis by auto
  next
    case b
    with "3.IH"(2)[of ys] show ?thesis by auto
  qed
qed

lemma combinations_complete:
  "finite g \<Longrightarrow> g \<subseteq> set xs \<Longrightarrow> card g = k \<Longrightarrow> \<exists>ys \<in> set (combinations xs k). set ys = g"
proof (induction xs k arbitrary: g rule: combinations.induct)
  case (1 xs)
  then show ?case by simp
next
  case (2 r)
  then show ?case by simp
next
  case (3 x xs r)
  show ?case
  proof (cases "x \<in> g")
    case True
    have "finite (g - {x})" "g - {x} \<subseteq> set xs" "card (g - {x}) = r"
      using "3.prems" True by auto
    from "3.IH"(1)[OF this] obtain zs where zs: "zs \<in> set (combinations xs r)" "set zs = g - {x}"
      by blast
    have "x # zs \<in> set (combinations (x # xs) (Suc r))" using zs by simp
    moreover have "set (x # zs) = g" using zs True by auto
    ultimately show ?thesis by blast
  next
    case False
    with "3.prems" have "g \<subseteq> set xs" by auto
    from "3.IH"(2)[OF "3.prems"(1) this "3.prems"(3)] show ?thesis by auto
  qed
qed

lemma set_groups:
  assumes "finite S"
  shows "set (groups S) = {g. (card g = 1 \<or> card g = 2) \<and> g \<subseteq> S}"
proof (intro set_eqI iffI)
  fix g assume "g \<in> set (groups S)"
  then obtain k ys where k: "k = 1 \<or> k = 2" and ys: "ys \<in> set (combinations (sorted_list_of_set S) k)"
    and g: "g = set ys"
    by (auto simp: groups_def split: if_splits)
  from combinations_props[OF ys] assms have "length ys = k" "set ys \<subseteq> S" "distinct ys"
    by auto
  then have "card g = k" "g \<subseteq> S" using g by (auto simp: distinct_card)
  with k show "g \<in> {g. (card g = 1 \<or> card g = 2) \<and> g \<subseteq> S}" by auto
next
  fix g assume "g \<in> {g. (card g = 1 \<or> card g = 2) \<and> g \<subseteq> S}"
  then have c: "card g = 1 \<or> card g = 2" and sub: "g \<subseteq> S" by auto
  have fin: "finite g" using sub assms by (rule finite_subset)
  have le: "card g \<le> card S" using sub assms by (simp add: card_mono)
  have "g \<subseteq> set (sorted_list_of_set S)" using sub assms by simp
  from combinations_complete[OF fin this refl]
  obtain ys where "ys \<in> set (combinations (sorted_list_of_set S) (card g))" "set ys = g" by blast
  then show "g \<in> set (groups S)" using c le
    by (auto simp: groups_def)
qed

subsection \<open>Trip times\<close>

lemma trip_time_group_cost:
  assumes "grp \<subseteq> all_people ct" "grp \<noteq> {}"
  shows "trip_time ct grp = Inr (group_cost ct grp)"
proof -
  have "\<forall>p\<in>grp. map_of ct p \<noteq> None"
    using assms(1) by (auto simp: all_people_def map_of_eq_None_iff)
  then show ?thesis using assms(2) by (auto simp: trip_time_def group_cost_def)
qed

lemma valid_group_nonempty: "valid_group cfg g \<Longrightarrow> g \<noteq> {} \<and> finite g"
  by (auto simp: valid_group_def card_eq_0_iff intro: card_ge_0_finite)

lemma move_from_subset: "wf_config P cfg \<Longrightarrow> move_from cfg \<subseteq> P"
  by (auto simp: wf_config_def move_from_def split: prod.splits)

lemma group_cost_nonneg:
  assumes "nonneg_times ct" "g \<subseteq> all_people ct" "g \<noteq> {}" "finite g"
  shows "0 \<le> group_cost ct g"
proof -
  from assms(3) obtain p where p: "p \<in> g" by auto
  with assms(2) obtain d where d: "map_of ct p = Some d"
    by (cases "map_of ct p") (auto simp: all_people_def map_of_eq_None_iff)
  then have "(p, d) \<in> set ct" by (rule map_of_SomeD)
  with assms(1) have "0 \<le> d" by (auto simp: nonneg_times_def list_all_iff)
  moreover have "d \<le> group_cost ct g"
    unfolding group_cost_def using p d assms(4) by (intro Max_ge) (auto intro: rev_image_eqI)
  ultimately show ?thesis by simp
qed

subsection \<open>Moves\<close>

lemma wf_apply_move:
  "wf_config P cfg \<Longrightarrow> g \<subseteq> move_from cfg \<Longrightarrow> wf_config P (apply_move cfg g)"
  by (auto simp: wf_config_def move_from_def apply_move_def split: prod.splits if_splits)

lemma moved_apply_move:
  "wf_config P cfg \<Longrightarrow> g \<subseteq> move_from cfg \<Longrightarrow> moved_people cfg (apply_move cfg g) = g"
  by (auto simp: wf_config_def move_from_def apply_move_def moved_people_def split: prod.splits if_splits)

lemma valid_move_apply:
  "wf_config P cfg \<Longrightarrow> valid_group cfg g \<Longrightarrow> valid_move cfg (apply_move cfg g)"
  by (simp add: valid_move_def valid_group_def moved_apply_move)

lemma wf_valid_move: "wf_config P cfg \<Longrightarrow> valid_move cfg cfg' \<Longrightarrow> wf_config P cfg'"
  by (metis valid_move_def valid_group_def wf_apply_move)

lemma wf_initial: "wf_config (all_people ct) (initial_state ct)"
  by (simp add: wf_config_def initial_state_def)

subsection \<open>Paths\<close>

lemma valid_path_snoc:
  "valid_path (p @ [c]) = (valid_path p \<and> (p \<noteq> [] \<longrightarrow> valid_move (last p) c))"
  by (induction p rule: valid_path.induct) auto

lemma path_cost_snoc:
  "p \<noteq> [] \<Longrightarrow> path_cost ct (p @ [c]) = path_cost ct p + group_cost ct (moved_people (last p) c)"
  by (induction ct p rule: path_cost.induct) auto

lemma valid_path_wf:
  "valid_path (c # p) \<Longrightarrow> wf_config P c \<Longrightarrow> \<forall>c' \<in> set (c # p). wf_config P c'"
  by (induction p arbitrary: c) (auto dest: wf_valid_move)

lemma path_cost_nonneg:
  "nonneg_times ct \<Longrightarrow> valid_path (c # p) \<Longrightarrow> wf_config (all_people ct) c \<Longrightarrow> 0 \<le> path_cost ct (c # p)"
proof (induction p arbitrary: c)
  case Nil
  then show ?case by simp
next
  case (Cons c' p)
  from Cons.prems have vm: "valid_move c c'" and vp: "valid_path (c' # p)" by auto
  have wf': "wf_config (all_people ct) c'" using Cons.prems(3) vm by (rule wf_valid_move)
  have vg: "valid_group c (moved_people c c')" using vm by (simp add: valid_move_def)
  then have "moved_people c c' \<subseteq> all_people ct"
    using move_from_subset[OF Cons.prems(3)] by (auto simp: valid_group_def)
  then have "0 \<le> group_cost ct (moved_people c c')"
    using valid_group_nonempty[OF vg] Cons.prems(1) by (intro group_cost_nonneg) auto
  moreover have "0 \<le> path_cost ct (c' # p)" using Cons.IH[OF Cons.prems(1) vp wf'] .
  ultimately show ?case by simp
qed

subsection \<open>The priority queue\<close>

lemma pop_min_le:
  "pop_min e es = (m, rest) \<Longrightarrow> x \<in> set (e # es) \<Longrightarrow> fst m \<le> fst x"
proof (induction e es arbitrary: m rest x rule: pop_min.induct)
  case (1 e)
  then show ?case by auto
next
  case (2 e y ys)
  obtain m' rest' where pm: "pop_min y ys = (m', rest')" by (cases "pop_min y ys")
  have IH: "\<And>z. z \<in> set (y # ys) \<Longrightarrow> fst m' \<le> fst z" using "2.IH"[OF pm] by blast
  show ?case
  proof (cases "fst e \<le> fst m'")
    case True
    with "2.prems" pm have "m = e" by auto
    then show ?thesis using True IH[of x] "2.prems"(2) by fastforce
  next
    case False
    with "2.prems" pm have "m = m'" by auto
    then show ?thesis using False IH[of x] "2.prems"(2) by fastforce
  qed
qed

lemma pop_min_set:
  "pop_min e es = (m, rest) \<Longrightarrow> set (e # es) = insert m (set rest)"
proof (induction e es arbitrary: m rest rule: pop_min.induct)
  case (1 e)
  then show ?case by auto
next
  case (2 e y ys)
  obtain m' rest' where pm: "pop_min y ys = (m', rest')" by (cases "pop_min y ys")
  have IH: "set (y # ys) = insert m' (set rest')" using "2.IH"[OF pm] .
  show ?case
  proof (cases "fst e \<le> fst m'")
    case True
    with "2.prems" pm have "m = e" "rest = y # ys" by auto
    then show ?thesis by simp
  next
    case False
    with "2.prems" pm have "m = m'" "rest = e # rest'" by auto
    then show ?thesis using IH by (simp add: insert_commute)
  qed
qed

lemma pop_min_length:
  "pop_min e es = (m, rest) \<Longrightarrow> length rest = length es"
  by (induction e es arbitrary: m rest rule: pop_min.induct)
     (auto split: prod.splits if_splits)

subsection \<open>Monotonicity\<close>

lemma improved_update:
  "improves v c tt \<Longrightarrow> improved v (v(c \<mapsto> tt))"
  by (auto simp: improved_def improves_def)

lemma relaxed_mono: "relaxed ct limit v c t \<Longrightarrow> improved v v' \<Longrightarrow> relaxed ct limit v' c t"
  unfolding relaxed_def improved_def
  by (meson order_trans)

lemma done_ok_mono: "done_ok ct limit cfg t0 dn v \<Longrightarrow> improved v v' \<Longrightarrow> done_ok ct limit cfg t0 dn v'"
  unfolding done_ok_def improved_def
  by (meson order_trans)

lemma settled_mono:
  "settled ct limit E v best c t \<Longrightarrow> E \<subseteq> E' \<Longrightarrow> improved v v' \<Longrightarrow> settled ct limit E' v' best c t"
  unfolding settled_def using relaxed_mono by blast

lemma good_path_wf:
  assumes "good_path ct limit p t"
  shows "\<forall>c \<in> set p. wf_config (all_people ct) c"
proof -
  from assms obtain c q where p: "p = c # q" and c: "c = initial_state ct" and vp: "valid_path (c # q)"
    by (cases p) (auto simp: good_path_def)
  show ?thesis using valid_path_wf[OF vp] wf_initial[of ct] c p by blast
qed

lemma good_path_last_wf: "good_path ct limit p t \<Longrightarrow> wf_config (all_people ct) (last p)"
  using good_path_wf[of ct limit p t] by (simp add: good_path_def)

lemma good_path_nonneg:
  assumes "nonneg_times ct" "good_path ct limit p t"
  shows "0 \<le> t"
proof -
  from assms(2) obtain c q where p: "p = c # q" and c: "c = initial_state ct" and vp: "valid_path (c # q)"
    and t: "path_cost ct p = t"
    by (cases p) (auto simp: good_path_def)
  show ?thesis using path_cost_nonneg[OF assms(1) vp] wf_initial[of ct] c p t by simp
qed

lemma good_path_extend:
  assumes gp: "good_path ct limit p t0" and vg: "valid_group (last p) g"
    and le: "t0 + group_cost ct g \<le> limit"
  shows "good_path ct limit (p @ [apply_move (last p) g]) (t0 + group_cost ct g)"
proof -
  have wf: "wf_config (all_people ct) (last p)" using gp by (rule good_path_last_wf)
  have sub: "g \<subseteq> move_from (last p)" using vg by (simp add: valid_group_def)
  have ne: "p \<noteq> []" using gp by (simp add: good_path_def)
  have "valid_move (last p) (apply_move (last p) g)" using wf vg by (rule valid_move_apply)
  moreover have "moved_people (last p) (apply_move (last p) g) = g"
    using wf sub by (rule moved_apply_move)
  ultimately show ?thesis using gp le ne
    by (simp add: good_path_def valid_path_snoc path_cost_snoc)
qed

lemma good_path_initial: "good_path ct limit [initial_state ct] 0"
  by (simp add: good_path_def)

subsection \<open>The invariant under the operations of the search\<close>

lemma inv_relax:
  assumes inv: "search_inv ct limit X E v best"
    and gp: "good_path ct limit p' tt" and lst: "last p' = c'"
    and imp: "improves v c' tt"
  shows "search_inv ct limit X (insert (tt, p') E) (v(c' \<mapsto> tt)) best"
proof -
  let ?v = "v(c' \<mapsto> tt)" and ?E = "insert (tt, p') E"
  have iv: "improved v ?v" using imp by (rule improved_update)
  have 1: "\<exists>t0. ?v (initial_state ct) = Some t0 \<and> t0 \<le> 0"
    using inv iv unfolding search_inv_def improved_def by (meson order_trans)
  have 2: "good_path ct limit (snd e) (fst e) \<and> (\<exists>t'. ?v (last (snd e)) = Some t' \<and> t' \<le> fst e)"
    if "e \<in> ?E" for e
  proof (cases "e = (tt, p')")
    case True
    then show ?thesis using gp lst by simp
  next
    case False
    with that have e: "e \<in> E" by simp
    with inv have g: "good_path ct limit (snd e) (fst e)"
      and "\<exists>t'. v (last (snd e)) = Some t' \<and> t' \<le> fst e"
      unfolding search_inv_def by blast+
    then obtain t' where "v (last (snd e)) = Some t'" "t' \<le> fst e" by blast
    with iv obtain t'' where "?v (last (snd e)) = Some t''" "t'' \<le> fst e"
      unfolding improved_def by (meson order_trans)
    with g show ?thesis by blast
  qed
  have 3: "(\<exists>p. good_path ct limit p t \<and> last p = c) \<and> (settled ct limit ?E ?v best c t \<or> (c, t) \<in> X)"
    if vc: "?v c = Some t" for c t
  proof (cases "c = c'")
    case True
    with vc have t: "t = tt" by simp
    have "settled ct limit ?E ?v best c t" unfolding settled_def using True t lst by blast
    then show ?thesis using gp lst True t by blast
  next
    case False
    with vc have "v c = Some t" by simp
    with inv have a: "\<exists>p. good_path ct limit p t \<and> last p = c"
      and b: "settled ct limit E v best c t \<or> (c, t) \<in> X"
      unfolding search_inv_def by blast+
    from b have "settled ct limit ?E ?v best c t \<or> (c, t) \<in> X"
      using settled_mono[OF _ _ iv, of ct limit E best c t ?E] by blast
    with a show ?thesis by blast
  qed
  show ?thesis unfolding search_inv_def using 1 2 3 by blast
qed

lemma inv_pop:
  assumes inv: "search_inv ct limit {} E v best"
    and sub: "E \<subseteq> insert (t0, p0) E'" "E' \<subseteq> E"
  shows "search_inv ct limit {(last p0, t0)} E' v best"
proof -
  have 3: "settled ct limit E' v best c t \<or> (c, t) \<in> {(last p0, t0)}"
    if "settled ct limit E v best c t" for c t
    using that sub(1) unfolding settled_def by auto
  show ?thesis using inv sub(2) 3 unfolding search_inv_def by blast
qed

lemma inv_settle:
  assumes inv: "search_inv ct limit {(c0, t0)} E v best"
    and st: "v c0 = Some t0 \<Longrightarrow> settled ct limit E v best c0 t0"
  shows "search_inv ct limit {} E v best"
  using inv st unfolding search_inv_def by blast

lemma inv_best:
  assumes inv: "search_inv ct limit X E v best" and bb: "below_best b' best"
  shows "search_inv ct limit X E v (Some b')"
proof -
  have "settled ct limit E v (Some b') c t" if "settled ct limit E v best c t" for c t
    using that bb unfolding settled_def below_best_def by (auto split: option.splits)
  then show ?thesis using inv unfolding search_inv_def by blast
qed

lemma inv_initial: "search_inv ct limit {} {(0, [initial_state ct])} [initial_state ct \<mapsto> 0] None"
  unfolding search_inv_def settled_def
  using good_path_initial[of ct limit] by (auto split: if_splits)

subsection \<open>The potential decreases with every improvement\<close>

lemma finite_configs: "finite {c. wf_config (all_people ct) c}"
proof -
  have "{c. wf_config (all_people ct) c} \<subseteq> Pow (all_people ct) \<times> Pow (all_people ct) \<times> UNIV"
    by (auto simp: wf_config_def)
  moreover have "finite (Pow (all_people ct) \<times> Pow (all_people ct) \<times> (UNIV :: side set))"
  proof -
    have "(UNIV :: side set) = {Start, End}" using side.exhaust by auto
    then have "finite (UNIV :: side set)" by (metis finite.emptyI finite.insertI)
    then show ?thesis by (simp add: all_people_def)
  qed
  ultimately show ?thesis by (rule finite_subset)
qed

lemma potential_update:
  assumes wf: "wf_config (all_people ct) c" and tt: "0 \<le> tt" "tt \<le> limit"
    and imp: "improves v c tt"
  shows "potential ct limit (v(c \<mapsto> tt)) < potential ct limit v"
proof -
  let ?U = "{c. wf_config (all_people ct) c}"
  have c: "c \<in> ?U" using wf by simp
  have a: "potential ct limit (v(c \<mapsto> tt)) = slack limit (Some tt) + (\<Sum>x \<in> ?U - {c}. slack limit (v x))"
    unfolding potential_def using sum.remove[OF finite_configs c, of "\<lambda>x. slack limit ((v(c \<mapsto> tt)) x)"]
    by simp
  have b: "potential ct limit v = slack limit (v c) + (\<Sum>x \<in> ?U - {c}. slack limit (v x))"
    unfolding potential_def using sum.remove[OF finite_configs c, of "\<lambda>x. slack limit (v x)"]
    by simp
  have "slack limit (Some tt) < slack limit (v c)"
    using imp tt by (auto simp: slack_def improves_def split: option.splits)
  with a b show ?thesis by simp
qed

subsection \<open>One relaxation\<close>

lemma relax_facts:
  assumes inv: "search_inv ct limit X E v best"
    and gp: "good_path ct limit p t0" and lst: "last p = cfg"
    and vg: "valid_group cfg g"
    and dn: "done_ok ct limit cfg t0 dn v"
  shows "trip_time ct g = Inr (group_cost ct g)"
    and "t0 + group_cost ct g \<le> limit \<Longrightarrow> improves v (apply_move cfg g) (t0 + group_cost ct g) \<Longrightarrow>
         search_inv ct limit X (insert (t0 + group_cost ct g, p @ [apply_move cfg g]) E)
           (v(apply_move cfg g \<mapsto> t0 + group_cost ct g)) best \<and>
         done_ok ct limit cfg t0 (insert g dn) (v(apply_move cfg g \<mapsto> t0 + group_cost ct g)) \<and>
         (nonneg_times ct \<longrightarrow>
            potential ct limit (v(apply_move cfg g \<mapsto> t0 + group_cost ct g)) < potential ct limit v)"
    and "\<not> (t0 + group_cost ct g \<le> limit \<and> improves v (apply_move cfg g) (t0 + group_cost ct g)) \<Longrightarrow>
         done_ok ct limit cfg t0 (insert g dn) v"
proof -
  have wf: "wf_config (all_people ct) cfg" using good_path_last_wf[OF gp] lst by simp
  have sub: "g \<subseteq> move_from cfg" using vg by (simp add: valid_group_def)
  then have gsub: "g \<subseteq> all_people ct" using move_from_subset[OF wf] by blast
  show "trip_time ct g = Inr (group_cost ct g)"
    using gsub valid_group_nonempty[OF vg] by (intro trip_time_group_cost) auto
  let ?c = "apply_move cfg g" and ?t = "t0 + group_cost ct g"
  {
    assume le: "?t \<le> limit" and imp: "improves v ?c ?t"
    have gp': "good_path ct limit (p @ [?c]) ?t"
      using good_path_extend[OF gp, of g] vg lst le by simp
    have i: "search_inv ct limit X (insert (?t, p @ [?c]) E) (v(?c \<mapsto> ?t)) best"
      using inv gp' _ imp by (rule inv_relax) simp
    have d: "done_ok ct limit cfg t0 (insert g dn) (v(?c \<mapsto> ?t))"
      using done_ok_mono[OF dn improved_update[OF imp]]
      by (auto simp: done_ok_def)
    have m: "potential ct limit (v(?c \<mapsto> ?t)) < potential ct limit v" if "nonneg_times ct"
    proof -
      have "0 \<le> ?t" using good_path_nonneg[OF that gp'] .
      moreover have "wf_config (all_people ct) ?c" using wf sub by (rule wf_apply_move)
      ultimately show ?thesis using le imp by (intro potential_update) auto
    qed
    from i d m show "search_inv ct limit X (insert (?t, p @ [?c]) E) (v(?c \<mapsto> ?t)) best \<and>
         done_ok ct limit cfg t0 (insert g dn) (v(?c \<mapsto> ?t)) \<and>
         (nonneg_times ct \<longrightarrow> potential ct limit (v(?c \<mapsto> ?t)) < potential ct limit v)"
      by blast
  }
  {
    assume n: "\<not> (?t \<le> limit \<and> improves v ?c ?t)"
    show "done_ok ct limit cfg t0 (insert g dn) v"
      using dn n unfolding done_ok_def improves_def
      by (auto split: option.splits)
  }
qed

subsection \<open>The inner loops\<close>

lemma bfs_relax_inv:
  assumes inv: "search_inv ct limit X (set pq) v best"
    and gp: "good_path ct limit p t0" and lst: "last p = cfg"
    and vg: "valid_group cfg g"
    and dn: "done_ok ct limit cfg t0 dn v"
  shows "\<exists>v' pq'. bfs_relax ct limit t0 p cfg g (v, pq) = Inr (v', pq') \<and>
           search_inv ct limit X (set pq') v' best \<and>
           done_ok ct limit cfg t0 (insert g dn) v' \<and>
           (nonneg_times ct \<longrightarrow> (v' = v \<and> pq' = pq) \<or> potential ct limit v' < potential ct limit v)"
proof -
  note rf = relax_facts[OF inv gp lst vg dn]
  show ?thesis
  proof (cases "t0 + group_cost ct g \<le> limit \<and> improves v (apply_move cfg g) (t0 + group_cost ct g)")
    case True
    then have "bfs_relax ct limit t0 p cfg g (v, pq) =
       Inr (v(apply_move cfg g \<mapsto> t0 + group_cost ct g),
            pq @ [(t0 + group_cost ct g, p @ [apply_move cfg g])])"
      by (simp add: bfs_relax_def rf(1) heappush_def Let_def)
    then show ?thesis using rf(2) True by simp
  next
    case False
    then have "bfs_relax ct limit t0 p cfg g (v, pq) = Inr (v, pq)"
      by (auto simp: bfs_relax_def rf(1) Let_def)
    then show ?thesis using rf(3)[OF False] inv by simp
  qed
qed

lemma bfs_moves_inv:
  assumes "search_inv ct limit X (set pq) v best"
    and "good_path ct limit p t0" and "last p = cfg"
    and "\<forall>g \<in> set gs. valid_group cfg g"
    and "done_ok ct limit cfg t0 dn v"
  shows "\<exists>v' pq'. bfs_moves ct limit t0 p cfg gs (v, pq) = Inr (v', pq') \<and>
           search_inv ct limit X (set pq') v' best \<and>
           done_ok ct limit cfg t0 (dn \<union> set gs) v' \<and>
           (nonneg_times ct \<longrightarrow> (v' = v \<and> pq' = pq) \<or> potential ct limit v' < potential ct limit v)"
  using assms
proof (induction gs arbitrary: v pq dn)
  case Nil
  then show ?case by simp
next
  case (Cons g gs)
  from Cons.prems(4) have vg: "valid_group cfg g" and vgs: "\<forall>g \<in> set gs. valid_group cfg g" by auto
  from bfs_relax_inv[OF Cons.prems(1,2,3) vg Cons.prems(5)]
  obtain v1 pq1 where r: "bfs_relax ct limit t0 p cfg g (v, pq) = Inr (v1, pq1)"
    and i1: "search_inv ct limit X (set pq1) v1 best"
    and d1: "done_ok ct limit cfg t0 (insert g dn) v1"
    and m1: "nonneg_times ct \<longrightarrow> (v1 = v \<and> pq1 = pq) \<or> potential ct limit v1 < potential ct limit v"
    by blast
  from Cons.IH[OF i1 Cons.prems(2,3) vgs d1]
  obtain v2 pq2 where r2: "bfs_moves ct limit t0 p cfg gs (v1, pq1) = Inr (v2, pq2)"
    and i2: "search_inv ct limit X (set pq2) v2 best"
    and d2: "done_ok ct limit cfg t0 (insert g dn \<union> set gs) v2"
    and m2: "nonneg_times ct \<longrightarrow> (v2 = v1 \<and> pq2 = pq1) \<or> potential ct limit v2 < potential ct limit v1"
    by blast
  have "bfs_moves ct limit t0 p cfg (g # gs) (v, pq) = Inr (v2, pq2)" using r r2 by simp
  moreover have "done_ok ct limit cfg t0 (dn \<union> set (g # gs)) v2" using d2 by simp
  moreover have "nonneg_times ct \<longrightarrow> (v2 = v \<and> pq2 = pq) \<or> potential ct limit v2 < potential ct limit v"
    using m1 m2 by auto
  ultimately show ?case using i2 by blast
qed

lemma dfs_relax_inv:
  assumes inv: "search_inv ct limit X (E \<union> entries ms) v best"
    and gp: "good_path ct limit p t0" and lst: "last p = cfg"
    and vg: "valid_group cfg g"
    and dn: "done_ok ct limit cfg t0 dn v"
    and eo: "ends_ok ms"
  shows "\<exists>v' ms'. dfs_relax ct limit t0 p cfg g (v, ms) = Inr (v', ms') \<and>
           search_inv ct limit X (E \<union> entries ms') v' best \<and>
           done_ok ct limit cfg t0 (insert g dn) v' \<and> ends_ok ms' \<and>
           (nonneg_times ct \<longrightarrow> (v' = v \<and> ms' = ms) \<or> potential ct limit v' < potential ct limit v)"
proof -
  note rf = relax_facts[OF inv gp lst vg dn]
  show ?thesis
  proof (cases "t0 + group_cost ct g \<le> limit \<and> improves v (apply_move cfg g) (t0 + group_cost ct g)")
    case True
    let ?m = "(t0 + group_cost ct g, p @ [apply_move cfg g], apply_move cfg g)"
    from True have "dfs_relax ct limit t0 p cfg g (v, ms) =
       Inr (v(apply_move cfg g \<mapsto> t0 + group_cost ct g), ms @ [?m])"
      by (simp add: dfs_relax_def rf(1) Let_def)
    moreover have "E \<union> entries (ms @ [?m]) =
        insert (t0 + group_cost ct g, p @ [apply_move cfg g]) (E \<union> entries ms)"
      by (simp add: entries_def)
    moreover have "ends_ok (ms @ [?m])" using eo by (simp add: ends_ok_def)
    ultimately show ?thesis using rf(2) True by simp
  next
    case False
    then have "dfs_relax ct limit t0 p cfg g (v, ms) = Inr (v, ms)"
      by (auto simp: dfs_relax_def rf(1) Let_def)
    then show ?thesis using rf(3)[OF False] inv eo by simp
  qed
qed

lemma dfs_moves_inv:
  assumes "search_inv ct limit X (E \<union> entries ms) v best"
    and "good_path ct limit p t0" and "last p = cfg"
    and "\<forall>g \<in> set gs. valid_group cfg g"
    and "done_ok ct limit cfg t0 dn v"
    and "ends_ok ms"
  shows "\<exists>v' ms'. dfs_moves ct limit t0 p cfg gs (v, ms) = Inr (v', ms') \<and>
           search_inv ct limit X (E \<union> entries ms') v' best \<and>
           done_ok ct limit cfg t0 (dn \<union> set gs) v' \<and> ends_ok ms' \<and>
           (nonneg_times ct \<longrightarrow> (v' = v \<and> ms' = ms) \<or> potential ct limit v' < potential ct limit v)"
  using assms
proof (induction gs arbitrary: v ms dn)
  case Nil
  then show ?case by simp
next
  case (Cons g gs)
  from Cons.prems(4) have vg: "valid_group cfg g" and vgs: "\<forall>g \<in> set gs. valid_group cfg g" by auto
  from dfs_relax_inv[OF Cons.prems(1,2,3) vg Cons.prems(5,6)]
  obtain v1 ms1 where r: "dfs_relax ct limit t0 p cfg g (v, ms) = Inr (v1, ms1)"
    and i1: "search_inv ct limit X (E \<union> entries ms1) v1 best"
    and d1: "done_ok ct limit cfg t0 (insert g dn) v1" and e1: "ends_ok ms1"
    and m1: "nonneg_times ct \<longrightarrow> (v1 = v \<and> ms1 = ms) \<or> potential ct limit v1 < potential ct limit v"
    by blast
  from Cons.IH[OF i1 Cons.prems(2,3) vgs d1 e1]
  obtain v2 ms2 where r2: "dfs_moves ct limit t0 p cfg gs (v1, ms1) = Inr (v2, ms2)"
    and i2: "search_inv ct limit X (E \<union> entries ms2) v2 best"
    and d2: "done_ok ct limit cfg t0 (insert g dn \<union> set gs) v2" and e2: "ends_ok ms2"
    and m2: "nonneg_times ct \<longrightarrow> (v2 = v1 \<and> ms2 = ms1) \<or> potential ct limit v2 < potential ct limit v1"
    by blast
  have "dfs_moves ct limit t0 p cfg (g # gs) (v, ms) = Inr (v2, ms2)" using r r2 by simp
  moreover have "done_ok ct limit cfg t0 (dn \<union> set (g # gs)) v2" using d2 by simp
  moreover have "nonneg_times ct \<longrightarrow> (v2 = v \<and> ms2 = ms) \<or> potential ct limit v2 < potential ct limit v"
    using m1 m2 by auto
  ultimately show ?case using i2 e2 by blast
qed

text \<open>After all groups of a configuration have been tried, the configuration is relaxed.\<close>

lemma done_all_relaxed:
  assumes "done_ok ct limit cfg t0 (set (groups (move_from cfg))) v"
    and "wf_config (all_people ct) cfg" and "fst cfg \<noteq> {}"
  shows "relaxed ct limit v cfg t0"
proof -
  have "finite (move_from cfg)"
    using move_from_subset[OF assms(2)] by (rule finite_subset) (simp add: all_people_def)
  then have "set (groups (move_from cfg)) = {g. valid_group cfg g}"
    by (simp add: set_groups valid_group_def)
  then show ?thesis using assms(1,3) unfolding relaxed_def done_ok_def by auto
qed

lemma groups_valid:
  assumes "wf_config (all_people ct) cfg"
  shows "\<forall>g \<in> set (groups (move_from cfg)). valid_group cfg g"
proof -
  have "finite (move_from cfg)"
    using move_from_subset[OF assms] by (rule finite_subset) (simp add: all_people_def)
  then show ?thesis by (simp add: set_groups valid_group_def)
qed

subsection \<open>The priority queue loop\<close>

lemma wf_bfs_rel: "wf (bfs_rel ct limit)"
  unfolding bfs_rel_def by (intro wf_inv_image wf_lex_prod wf_less_than)

lemma bfs_step_inv:
  assumes inv: "bfs_inv ct limit st"
  shows "case bfs_step ct limit st of
           Continue st' \<Rightarrow> bfs_inv ct limit st' \<and> (nonneg_times ct \<longrightarrow> (st', st) \<in> bfs_rel ct limit)
         | Return r \<Rightarrow> bfs_post ct limit r
         | Raise err \<Rightarrow> False"
proof -
  obtain pq v where st: "st = (pq, v)" by (cases st)
  have I: "search_inv ct limit {} (set pq) v None" using inv st by (simp add: bfs_inv_def)
  show ?thesis
  proof (cases pq)
    case Nil
    then show ?thesis using I st by (simp add: bfs_step_def bfs_post_def)
  next
    case (Cons e es)
    obtain t0 p0 pq' where pm: "pop_min e es = ((t0, p0), pq')"
      by (cases "pop_min e es") auto
    have S: "set pq = insert (t0, p0) (set pq')" using pop_min_set[OF pm] Cons by simp
    have L: "length pq' < length pq" using pop_min_length[OF pm] Cons by simp
    have M: "\<forall>x \<in> set pq. t0 \<le> fst x" using pop_min_le[OF pm] Cons by auto
    have mem: "(t0, p0) \<in> set pq" using S by simp
    have gp: "good_path ct limit p0 t0" using I mem unfolding search_inv_def by fastforce
    then have ne: "p0 \<noteq> []" by (simp add: good_path_def)
    define cfg where "cfg = last p0"
    have wf: "wf_config (all_people ct) cfg" using good_path_last_wf[OF gp] cfg_def by simp
    have P: "search_inv ct limit {(cfg, t0)} (set pq') v None"
      unfolding cfg_def using I by (rule inv_pop) (use S in auto)
    have rel: "nonneg_times ct \<longrightarrow> ((pq', v), st) \<in> bfs_rel ct limit"
      using L st by (simp add: bfs_rel_def)
    consider (goal_ok) "fst cfg = {}" "t0 \<le> limit"
      | (goal_late) "fst cfg = {}" "\<not> t0 \<le> limit"
      | (stale) "fst cfg \<noteq> {}" "stale v cfg t0"
      | (expand) "fst cfg \<noteq> {}" "\<not> stale v cfg t0"
      by blast
    then show ?thesis
    proof cases
      case goal_ok
      then have "bfs_step ct limit st = Return (Some t0, Some p0, v)"
        using st Cons pm ne cfg_def by (simp add: bfs_step_def heappop_def)
      moreover have "bfs_post ct limit (Some t0, Some p0, v)"
        unfolding bfs_post_def using gp goal_ok I M cfg_def by auto
      ultimately show ?thesis by simp
    next
      case goal_late
      then have "bfs_step ct limit st = Continue (pq', v)"
        using st Cons pm ne cfg_def by (simp add: bfs_step_def heappop_def)
      moreover have "search_inv ct limit {} (set pq') v None"
        using P by (rule inv_settle) (use goal_late in \<open>simp add: settled_def\<close>)
      ultimately show ?thesis using rel by (simp add: bfs_inv_def)
    next
      case stale
      then have "bfs_step ct limit st = Continue (pq', v)"
        using st Cons pm ne cfg_def by (simp add: bfs_step_def heappop_def)
      moreover have "search_inv ct limit {} (set pq') v None"
        using P by (rule inv_settle) (use stale in \<open>simp add: stale_def\<close>)
      ultimately show ?thesis using rel by (simp add: bfs_inv_def)
    next
      case expand
      have d0: "done_ok ct limit cfg t0 {} v" by (simp add: done_ok_def)
      from bfs_moves_inv[OF P gp cfg_def[symmetric] groups_valid[OF wf] d0]
      obtain v' pq'' where
        mv: "bfs_moves ct limit t0 p0 cfg (groups (move_from cfg)) (v, pq') = Inr (v', pq'')"
        and I': "search_inv ct limit {(cfg, t0)} (set pq'') v' None"
        and dn: "done_ok ct limit cfg t0 ({} \<union> set (groups (move_from cfg))) v'"
        and ms: "nonneg_times ct \<longrightarrow> (v' = v \<and> pq'' = pq') \<or> potential ct limit v' < potential ct limit v"
        by blast
      have "bfs_step ct limit st = Continue (pq'', v')"
        using st Cons pm ne cfg_def expand mv by (simp add: bfs_step_def heappop_def)
      moreover have "search_inv ct limit {} (set pq'') v' None"
      proof (rule inv_settle[OF I'])
        have "relaxed ct limit v' cfg t0"
          using dn wf expand(1) by (intro done_all_relaxed) simp_all
        then show "settled ct limit (set pq'') v' None cfg t0" by (simp add: settled_def)
      qed
      moreover have "nonneg_times ct \<longrightarrow> ((pq'', v'), st) \<in> bfs_rel ct limit"
        using ms L st by (auto simp: bfs_rel_def)
      ultimately show ?thesis by (simp add: bfs_inv_def)
    qed
  qed
qed

lemma bfs_loop_partial_aux:
  "bfs_loop ct limit st = Some r \<Longrightarrow>
     bfs_inv ct limit st \<longrightarrow> (\<exists>res. r = Inr res \<and> bfs_post ct limit res)"
proof (erule bfs_loop.raw_induct[rotated 1,
    where P = "\<lambda>ct limit st r. bfs_inv ct limit st \<longrightarrow> (\<exists>res. r = Inr res \<and> bfs_post ct limit res)"])
  fix loop :: "('a \<times> int) list \<Rightarrow> int \<Rightarrow> _ \<Rightarrow> (py_error + 'a result) option"
    and ct limit st r
  assume IH: "\<And>ct limit st r. loop ct limit st = Some r \<Longrightarrow>
      bfs_inv ct limit st \<longrightarrow> (\<exists>res. r = Inr res \<and> bfs_post ct limit res)"
    and eq: "(case bfs_step ct limit st of
        Continue st' \<Rightarrow> loop ct limit st'
      | Return r \<Rightarrow> Some (Inr r)
      | Raise err \<Rightarrow> Some (Inl err)) = Some r"
  show "bfs_inv ct limit st \<longrightarrow> (\<exists>res. r = Inr res \<and> bfs_post ct limit res)"
  proof
    assume inv: "bfs_inv ct limit st"
    from bfs_step_inv[OF inv] eq IH show "\<exists>res. r = Inr res \<and> bfs_post ct limit res"
      by (cases "bfs_step ct limit st") auto
  qed
qed

lemma bfs_loop_partial:
  "bfs_loop ct limit st = Some r \<Longrightarrow> bfs_inv ct limit st \<Longrightarrow>
     \<exists>res. r = Inr res \<and> bfs_post ct limit res"
  using bfs_loop_partial_aux by blast

lemma bfs_loop_terminates:
  assumes nn: "nonneg_times ct"
  shows "bfs_inv ct limit st \<Longrightarrow> \<exists>r. bfs_loop ct limit st = Some r"
proof (induction st rule: wf_induct_rule[OF wf_bfs_rel[of ct limit]])
  case (1 st)
  from bfs_step_inv[OF "1.prems"] nn "1.IH" show ?case
    by (subst bfs_loop.simps) (cases "bfs_step ct limit st", auto)
qed

subsection \<open>The depth-first loop\<close>

lemma wf_dfs_rel: "wf (dfs_rel ct limit)"
  unfolding dfs_rel_def by (intro wf_inv_image wf_lex_prod wf_less_than)

lemma entries_push_moves: "entries (push_moves ms stack) = entries stack \<union> entries ms"
  by (auto simp: entries_def push_moves_def)

lemma ends_ok_push_moves: "ends_ok ms \<Longrightarrow> ends_ok stack \<Longrightarrow> ends_ok (push_moves ms stack)"
  by (auto simp: ends_ok_def push_moves_def)

lemma dfs_step_inv:
  assumes inv: "dfs_inv ct limit st"
  shows "case dfs_step ct limit st of
           Continue st' \<Rightarrow> dfs_inv ct limit st' \<and> (nonneg_times ct \<longrightarrow> (st', st) \<in> dfs_rel ct limit)
         | Return r \<Rightarrow> dfs_post ct limit r
         | Raise err \<Rightarrow> False"
proof -
  obtain stack v best bp where st: "st = (stack, v, best, bp)" by (cases st)
  have I: "search_inv ct limit {} (entries stack) v best" and eo: "ends_ok stack"
    and bo: "best_ok ct limit best bp"
    using inv st by (simp_all add: dfs_inv_def)
  show ?thesis
  proof (cases stack)
    case Nil
    then show ?thesis using I bo st by (simp add: dfs_step_def dfs_post_def entries_def)
  next
    case (Cons top rest)
    obtain t0 p0 cfg where top: "top = (t0, p0, cfg)" by (cases top)
    have cfg: "cfg = last p0" using eo Cons top by (simp add: ends_ok_def)
    have eo': "ends_ok rest" using eo Cons by (simp add: ends_ok_def)
    have S: "entries stack = insert (t0, p0) (entries rest)"
      using Cons top by (simp add: entries_def)
    have gp: "good_path ct limit p0 t0" using I S unfolding search_inv_def by fastforce
    have wf: "wf_config (all_people ct) cfg" using good_path_last_wf[OF gp] cfg by simp
    have P: "search_inv ct limit {(cfg, t0)} (entries rest) v best"
      unfolding cfg using I by (rule inv_pop) (use S in auto)
    have rel: "nonneg_times ct \<longrightarrow> ((rest, v, b', bp'), st) \<in> dfs_rel ct limit" for b' bp'
      using Cons st by (simp add: dfs_rel_def)
    consider (goal_new) "fst cfg = {}" "below_best t0 best \<and> t0 \<le> limit"
      | (goal_old) "fst cfg = {}" "\<not> (below_best t0 best \<and> t0 \<le> limit)"
      | (prune) "fst cfg \<noteq> {}" "\<not> below_best t0 best \<or> t0 > limit"
      | (stale) "fst cfg \<noteq> {}" "\<not> (\<not> below_best t0 best \<or> t0 > limit)" "stale v cfg t0"
      | (expand) "fst cfg \<noteq> {}" "\<not> (\<not> below_best t0 best \<or> t0 > limit)" "\<not> stale v cfg t0"
      by blast
    then show ?thesis
    proof cases
      case goal_new
      then have "dfs_step ct limit st = Continue (rest, v, Some t0, Some p0)"
        using st Cons top by (simp add: dfs_step_def)
      moreover have "search_inv ct limit {} (entries rest) v (Some t0)"
      proof (rule inv_settle)
        show "search_inv ct limit {(cfg, t0)} (entries rest) v (Some t0)"
          using inv_best[OF P] goal_new(2) by blast
        show "settled ct limit (entries rest) v (Some t0) cfg t0" by (simp add: settled_def)
      qed
      moreover have "best_ok ct limit (Some t0) (Some p0)"
        using gp goal_new cfg by (simp add: best_ok_def)
      ultimately show ?thesis using rel eo' by (simp add: dfs_inv_def)
    next
      case goal_old
      then have "dfs_step ct limit st = Continue (rest, v, best, bp)"
        using st Cons top by (auto simp: dfs_step_def)
      moreover have "search_inv ct limit {} (entries rest) v best"
        using P by (rule inv_settle)
          (use goal_old in \<open>auto simp: settled_def below_best_def split: option.splits\<close>)
      ultimately show ?thesis using rel eo' bo by (simp add: dfs_inv_def)
    next
      case prune
      then have "dfs_step ct limit st = Continue (rest, v, best, bp)"
        using st Cons top by (simp add: dfs_step_def)
      moreover have "search_inv ct limit {} (entries rest) v best"
        using P by (rule inv_settle)
          (use prune in \<open>auto simp: settled_def below_best_def split: option.splits\<close>)
      ultimately show ?thesis using rel eo' bo by (simp add: dfs_inv_def)
    next
      case stale
      then have "dfs_step ct limit st = Continue (rest, v, best, bp)"
        using st Cons top by (simp add: dfs_step_def)
      moreover have "search_inv ct limit {} (entries rest) v best"
        using P by (rule inv_settle) (use stale in \<open>simp add: stale_def\<close>)
      ultimately show ?thesis using rel eo' bo by (simp add: dfs_inv_def)
    next
      case expand
      have d0: "done_ok ct limit cfg t0 {} v" by (simp add: done_ok_def)
      have e0: "ends_ok []" by (simp add: ends_ok_def)
      have P0: "search_inv ct limit {(cfg, t0)} (entries rest \<union> entries []) v best"
        using P by (simp add: entries_def)
      from dfs_moves_inv[OF P0 gp cfg[symmetric] groups_valid[OF wf] d0 e0]
      obtain v' ms where
        mv: "dfs_moves ct limit t0 p0 cfg (groups (move_from cfg)) (v, []) = Inr (v', ms)"
        and I': "search_inv ct limit {(cfg, t0)} (entries rest \<union> entries ms) v' best"
        and dn: "done_ok ct limit cfg t0 ({} \<union> set (groups (move_from cfg))) v'"
        and em: "ends_ok ms"
        and ms: "nonneg_times ct \<longrightarrow> (v' = v \<and> ms = []) \<or> potential ct limit v' < potential ct limit v"
        by blast
      have "dfs_step ct limit st = Continue (push_moves ms rest, v', best, bp)"
        using st Cons top expand mv by (simp add: dfs_step_def)
      moreover have "search_inv ct limit {} (entries (push_moves ms rest)) v' best"
        unfolding entries_push_moves
      proof (rule inv_settle[OF I'])
        have "relaxed ct limit v' cfg t0"
          using dn wf expand(1) by (intro done_all_relaxed) simp_all
        then show "settled ct limit (entries rest \<union> entries ms) v' best cfg t0"
          by (simp add: settled_def)
      qed
      moreover have "nonneg_times ct \<longrightarrow> ((push_moves ms rest, v', best, bp), st) \<in> dfs_rel ct limit"
        using ms Cons st by (auto simp: dfs_rel_def push_moves_def)
      moreover have "ends_ok (push_moves ms rest)" using em eo' by (rule ends_ok_push_moves)
      ultimately show ?thesis using bo by (simp add: dfs_inv_def)
    qed
  qed
qed

lemma dfs_loop_partial_aux:
  "dfs_loop ct limit st = Some r \<Longrightarrow>
     dfs_inv ct limit st \<longrightarrow> (\<exists>res. r = Inr res \<and> dfs_post ct limit res)"
proof (erule dfs_loop.raw_induct[rotated 1,
    where P = "\<lambda>ct limit st r. dfs_inv ct limit st \<longrightarrow> (\<exists>res. r = Inr res \<and> dfs_post ct limit res)"])
  fix loop :: "('a \<times> int) list \<Rightarrow> int \<Rightarrow> _ \<Rightarrow> (py_error + 'a result) option"
    and ct limit st r
  assume IH: "\<And>ct limit st r. loop ct limit st = Some r \<Longrightarrow>
      dfs_inv ct limit st \<longrightarrow> (\<exists>res. r = Inr res \<and> dfs_post ct limit res)"
    and eq: "(case dfs_step ct limit st of
        Continue st' \<Rightarrow> loop ct limit st'
      | Return r \<Rightarrow> Some (Inr r)
      | Raise err \<Rightarrow> Some (Inl err)) = Some r"
  show "dfs_inv ct limit st \<longrightarrow> (\<exists>res. r = Inr res \<and> dfs_post ct limit res)"
  proof
    assume inv: "dfs_inv ct limit st"
    from dfs_step_inv[OF inv] eq IH show "\<exists>res. r = Inr res \<and> dfs_post ct limit res"
      by (cases "dfs_step ct limit st") auto
  qed
qed

lemma dfs_loop_partial:
  "dfs_loop ct limit st = Some r \<Longrightarrow> dfs_inv ct limit st \<Longrightarrow>
     \<exists>res. r = Inr res \<and> dfs_post ct limit res"
  using dfs_loop_partial_aux by blast

lemma dfs_loop_terminates:
  assumes nn: "nonneg_times ct"
  shows "dfs_inv ct limit st \<Longrightarrow> \<exists>r. dfs_loop ct limit st = Some r"
proof (induction st rule: wf_induct_rule[OF wf_dfs_rel[of ct limit]])
  case (1 st)
  from dfs_step_inv[OF "1.prems"] nn "1.IH" show ?case
    by (subst dfs_loop.simps) (cases "dfs_step ct limit st", auto)
qed

subsection \<open>Optimality\<close>

lemma walk:
  assumes inv: "search_inv ct limit {} E v best" and nn: "nonneg_times ct"
  shows "valid_path (c # q) \<Longrightarrow> fst (last (c # q)) = {} \<Longrightarrow> v c = Some t \<Longrightarrow>
         t + path_cost ct (c # q) \<le> limit \<Longrightarrow>
         \<exists>t'. t' \<le> t + path_cost ct (c # q) \<and>
              ((\<exists>p. (t', p) \<in> E) \<or> (\<exists>b. best = Some b \<and> b \<le> t'))"
proof (induction q arbitrary: c t)
  case Nil
  from inv Nil.prems(3) have "settled ct limit E v best c t"
    unfolding search_inv_def by blast
  then show ?case using Nil.prems unfolding settled_def relaxed_def by auto
next
  case (Cons c' q)
  from inv Cons.prems(3) obtain p where gp: "good_path ct limit p t" "last p = c"
    and st: "settled ct limit E v best c t"
    unfolding search_inv_def by blast
  have wf: "wf_config (all_people ct) c" using good_path_last_wf[OF gp(1)] gp(2) by simp
  have vm: "valid_move c c'" and vp: "valid_path (c' # q)" using Cons.prems(1) by auto
  have wf': "wf_config (all_people ct) c'" using wf vm by (rule wf_valid_move)
  have rest: "0 \<le> path_cost ct (c' # q)" using nn vp wf' by (rule path_cost_nonneg)
  have tot: "0 \<le> path_cost ct (c # c' # q)" using nn Cons.prems(1) wf by (rule path_cost_nonneg)
  let ?g = "moved_people c c'"
  have cost: "path_cost ct (c # c' # q) = group_cost ct ?g + path_cost ct (c' # q)" by simp
  from st consider (pending) "\<exists>p. (t, p) \<in> E" | (dead) "limit < t"
    | (bounded) "\<exists>b. best = Some b \<and> b \<le> t" | (relaxed) "relaxed ct limit v c t"
    unfolding settled_def by blast
  then show ?case
  proof cases
    case pending
    then show ?thesis using tot by (intro exI[of _ t]) auto
  next
    case dead
    then show ?thesis using tot Cons.prems(4) by linarith
  next
    case bounded
    then show ?thesis using tot by (intro exI[of _ t]) auto
  next
    case relaxed
    have vg: "valid_group c ?g" and c': "c' = apply_move c ?g"
      using vm by (simp_all add: valid_move_def)
    have "t + group_cost ct ?g \<le> limit" using Cons.prems(4) rest cost by linarith
    with relaxed vg obtain t1 where t1: "v (apply_move c ?g) = Some t1" "t1 \<le> t + group_cost ct ?g"
      unfolding relaxed_def by blast
    have v1: "v c' = Some t1" using t1(1) c' by simp
    have le: "t1 + path_cost ct (c' # q) \<le> limit" using t1(2) Cons.prems(4) cost by linarith
    have lst: "fst (last (c' # q)) = {}" using Cons.prems(2) by simp
    from Cons.IH[OF vp lst v1 le] obtain t' where
      "t' \<le> t1 + path_cost ct (c' # q)"
      "(\<exists>p. (t', p) \<in> E) \<or> (\<exists>b. best = Some b \<and> b \<le> t')" by blast
    moreover have "t1 + path_cost ct (c' # q) \<le> t + path_cost ct (c # c' # q)"
      using t1(2) cost by linarith
    ultimately show ?thesis by (intro exI[of _ t']) auto
  qed
qed

lemma complete_bound:
  assumes inv: "search_inv ct limit {} E v best" and nn: "nonneg_times ct"
    and cp: "complete_path ct q" and le: "path_cost ct q \<le> limit"
  shows "\<exists>t'. t' \<le> path_cost ct q \<and> ((\<exists>p. (t', p) \<in> E) \<or> (\<exists>b. best = Some b \<and> b \<le> t'))"
proof -
  from cp obtain q' where q: "q = initial_state ct # q'" and vp: "valid_path (initial_state ct # q')"
    and lst: "fst (last (initial_state ct # q')) = {}"
    by (cases q) (auto simp: complete_path_def)
  from inv obtain t0 where t0: "v (initial_state ct) = Some t0" "t0 \<le> 0"
    unfolding search_inv_def by blast
  have "t0 + path_cost ct (initial_state ct # q') \<le> limit" using t0(2) le q by simp
  from walk[OF inv nn vp lst t0(1) this] obtain t' where
    "t' \<le> t0 + path_cost ct (initial_state ct # q')"
    "(\<exists>p. (t', p) \<in> E) \<or> (\<exists>b. best = Some b \<and> b \<le> t')" by blast
  then show ?thesis using t0(2) q by (intro exI[of _ t']) auto
qed

lemma good_complete:
  "good_path ct limit p t \<Longrightarrow> fst (last p) = {} \<Longrightarrow> complete_path ct p \<and> path_cost ct p = t"
  by (simp add: good_path_def complete_path_def)

lemma bfs_post_optimal:
  assumes nn: "nonneg_times ct" and post: "bfs_post ct limit r"
  shows "optimal_result ct limit r"
proof -
  obtain bt bp v where r: "r = (bt, bp, v)" by (cases r)
  show ?thesis
  proof (cases bt)
    case None
    with post r have bp: "bp = None" and inv: "search_inv ct limit {} {} v None"
      by (simp_all add: bfs_post_def)
    have "limit < path_cost ct q" if "complete_path ct q" for q
    proof (rule ccontr)
      assume "\<not> limit < path_cost ct q"
      then have "path_cost ct q \<le> limit" by simp
      from complete_bound[OF inv nn that this] show False by simp
    qed
    then show ?thesis using r None bp by (simp add: optimal_result_def)
  next
    case (Some T)
    with post r obtain path E where bp: "bp = Some path" and gp: "good_path ct limit path T"
      and goal: "fst (last path) = {}" and le: "T \<le> limit"
      and inv: "search_inv ct limit {} E v None" and mn: "\<forall>e \<in> E. T \<le> fst e"
      by (auto simp: bfs_post_def)
    have "T \<le> path_cost ct q" if "complete_path ct q" for q
    proof (cases "path_cost ct q \<le> limit")
      case True
      from complete_bound[OF inv nn that True] obtain t' p where
        "t' \<le> path_cost ct q" "(t', p) \<in> E" by auto
      then show ?thesis using mn by fastforce
    next
      case False
      then show ?thesis using le by simp
    qed
    then show ?thesis using r Some bp good_complete[OF gp goal] le
      by (simp add: optimal_result_def)
  qed
qed

lemma dfs_post_optimal:
  assumes nn: "nonneg_times ct" and post: "dfs_post ct limit r"
  shows "optimal_result ct limit r"
proof -
  obtain bt bp v where r: "r = (bt, bp, v)" by (cases r)
  from post r have inv: "search_inv ct limit {} {} v bt" and bo: "best_ok ct limit bt bp"
    by (simp_all add: dfs_post_def)
  show ?thesis
  proof (cases bt)
    case None
    have "limit < path_cost ct q" if "complete_path ct q" for q
    proof (rule ccontr)
      assume "\<not> limit < path_cost ct q"
      then have "path_cost ct q \<le> limit" by simp
      from complete_bound[OF inv nn that this] None show False by simp
    qed
    then show ?thesis using r None bo by (simp add: optimal_result_def best_ok_def)
  next
    case (Some T)
    with bo obtain path where bp: "bp = Some path" and gp: "good_path ct limit path T"
      and goal: "fst (last path) = {}" and le: "T \<le> limit"
      by (auto simp: best_ok_def)
    have "T \<le> path_cost ct q" if "complete_path ct q" for q
    proof (cases "path_cost ct q \<le> limit")
      case True
      from complete_bound[OF inv nn that True] Some show ?thesis by auto
    next
      case False
      then show ?thesis using le by simp
    qed
    then show ?thesis using r Some bp good_complete[OF gp goal] le
      by (simp add: optimal_result_def)
  qed
qed

lemma bfs_inv_initial: "bfs_inv ct limit ([(0, [initial_state ct])], [initial_state ct \<mapsto> 0])"
  using inv_initial[of ct limit] by (simp add: bfs_inv_def)

lemma dfs_inv_initial:
  "dfs_inv ct limit ([(0, [initial_state ct], initial_state ct)], [initial_state ct \<mapsto> 0], None, None)"
  using inv_initial[of ct limit] by (simp add: dfs_inv_def entries_def ends_ok_def best_ok_def)

lemma bfs_partial:
  "solve_bridge_problem_bfs ct limit = Some r \<Longrightarrow> \<exists>res. r = Inr res \<and> bfs_post ct limit res"
  unfolding solve_bridge_problem_bfs_def Let_def
  using bfs_loop_partial[OF _ bfs_inv_initial] by blast

lemma dfs_partial:
  "solve_bridge_problem_dfs ct limit = Some r \<Longrightarrow> \<exists>res. r = Inr res \<and> dfs_post ct limit res"
  unfolding solve_bridge_problem_dfs_def Let_def
  using dfs_loop_partial[OF _ dfs_inv_initial] by blast

lemma bfs_total:
  assumes "nonneg_times ct"
  shows "\<exists>res. solve_bridge_problem_bfs ct limit = Some (Inr res) \<and> bfs_post ct limit res \<and>
           optimal_result ct limit res"
proof -
  from bfs_loop_terminates[OF assms bfs_inv_initial, of limit]
  obtain r where r: "solve_bridge_problem_bfs ct limit = Some r"
    by (auto simp: solve_bridge_problem_bfs_def Let_def)
  from bfs_partial[OF r] obtain res where "r = Inr res" "bfs_post ct limit res" by blast
  then show ?thesis using r bfs_post_optimal[OF assms] by blast
qed

lemma dfs_total:
  assumes "nonneg_times ct"
  shows "\<exists>res. solve_bridge_problem_dfs ct limit = Some (Inr res) \<and> dfs_post ct limit res \<and>
           optimal_result ct limit res"
proof -
  from dfs_loop_terminates[OF assms dfs_inv_initial, of limit]
  obtain r where r: "solve_bridge_problem_dfs ct limit = Some r"
    by (auto simp: solve_bridge_problem_dfs_def Let_def)
  from dfs_partial[OF r] obtain res where "r = Inr res" "dfs_post ct limit res" by blast
  then show ?thesis using r dfs_post_optimal[OF assms] by blast
qed

subsection \<open>Consequences of optimality\<close>

lemma answerD: "answer r = Some (Inr (bt, bp)) \<Longrightarrow> \<exists>v. r = Some (Inr (bt, bp, v))"
  by (cases r) (auto simp: answer_def map_sum_def split: sum.splits)


lemma optimal_result_none:
  assumes "optimal_result ct limit (bt, bp, v)" "\<forall>q. complete_path ct q \<longrightarrow> limit < path_cost ct q"
  shows "bt = None \<and> bp = None"
proof (cases bt)
  case None
  with assms(1) show ?thesis by (simp add: optimal_result_def)
next
  case (Some T)
  with assms(1) obtain path where "complete_path ct path" "path_cost ct path = T" "T \<le> limit"
    by (auto simp: optimal_result_def)
  with assms(2) show ?thesis by fastforce
qed

lemma visited_initial_zero:
  assumes "nonneg_times ct" "search_inv ct limit X E v best"
  shows "v (initial_state ct) = Some 0"
proof -
  from assms(2) obtain t0 where t0: "v (initial_state ct) = Some t0" "t0 \<le> 0"
    unfolding search_inv_def by blast
  with assms(2) obtain p where "good_path ct limit p t0" unfolding search_inv_def by blast
  from good_path_nonneg[OF assms(1) this] t0 show ?thesis by simp
qed

lemma walk_recorded:
  assumes inv: "search_inv ct limit {} {} v None" and nn: "nonneg_times ct"
  shows "valid_path (c # q) \<Longrightarrow> v c = Some t \<Longrightarrow> t + path_cost ct (c # q) \<le> limit \<Longrightarrow>
         \<exists>t'. v (last (c # q)) = Some t' \<and> t' \<le> t + path_cost ct (c # q)"
proof (induction q arbitrary: c t)
  case Nil
  then show ?case by simp
next
  case (Cons c' q)
  from inv Cons.prems(2) obtain p where gp: "good_path ct limit p t" "last p = c"
    and st: "settled ct limit {} v None c t"
    unfolding search_inv_def by blast
  have wf: "wf_config (all_people ct) c" using good_path_last_wf[OF gp(1)] gp(2) by simp
  have vm: "valid_move c c'" and vp: "valid_path (c' # q)" using Cons.prems(1) by auto
  have wf': "wf_config (all_people ct) c'" using wf vm by (rule wf_valid_move)
  have rest: "0 \<le> path_cost ct (c' # q)" using nn vp wf' by (rule path_cost_nonneg)
  have tot: "0 \<le> path_cost ct (c # c' # q)" using nn Cons.prems(1) wf by (rule path_cost_nonneg)
  let ?g = "moved_people c c'"
  have cost: "path_cost ct (c # c' # q) = group_cost ct ?g + path_cost ct (c' # q)" by simp
  have "t \<le> limit" using tot Cons.prems(3) by linarith
  with st have rel: "relaxed ct limit v c t" unfolding settled_def by auto
  have vg: "valid_group c ?g" and c': "c' = apply_move c ?g"
    using vm by (simp_all add: valid_move_def)
  have "t + group_cost ct ?g \<le> limit" using Cons.prems(3) rest cost by linarith
  with rel vg obtain t1 where t1: "v (apply_move c ?g) = Some t1" "t1 \<le> t + group_cost ct ?g"
    unfolding relaxed_def by blast
  have v1: "v c' = Some t1" using t1(1) c' by simp
  have le: "t1 + path_cost ct (c' # q) \<le> limit" using t1(2) Cons.prems(3) cost by linarith
  from Cons.IH[OF vp v1 le] obtain t' where
    "v (last (c' # q)) = Some t'" "t' \<le> t1 + path_cost ct (c' # q)" by blast
  moreover have "t1 + path_cost ct (c' # q) \<le> t + path_cost ct (c # c' # q)"
    using t1(2) cost by linarith
  ultimately show ?case by (intro exI[of _ t']) auto
qed

lemma exhausted_searched_map:
  assumes nn: "nonneg_times ct" and inv: "search_inv ct limit {} {} v None"
  shows "searched_map ct limit v"
proof -
  have z: "v (initial_state ct) = Some 0" using nn inv by (rule visited_initial_zero)
  have snd: "(t \<le> limit \<or> c = initial_state ct) \<and>
         (\<exists>p. p \<noteq> [] \<and> hd p = initial_state ct \<and> last p = c \<and> valid_path p \<and>
              path_cost ct p = t)" if "v c = Some t" for c t
  proof -
    from inv that obtain p where "good_path ct limit p t" "last p = c"
      unfolding search_inv_def by blast
    then show ?thesis unfolding good_path_def by auto
  qed
  have cmp: "\<exists>t. v (last p) = Some t \<and> t \<le> path_cost ct p"
    if "p \<noteq> [] \<and> hd p = initial_state ct \<and> valid_path p \<and> path_cost ct p \<le> limit" for p
  proof -
    from that obtain q where p: "p = initial_state ct # q" by (cases p) auto
    have "valid_path (initial_state ct # q)" "0 + path_cost ct (initial_state ct # q) \<le> limit"
      using that p by simp_all
    from walk_recorded[OF inv nn this(1) z this(2)] show ?thesis using p by simp
  qed
  show ?thesis unfolding searched_map_def using z snd cmp by blast
qed



lemma bfs_reachable_inv: "bfs_reachable ct limit st \<Longrightarrow> bfs_inv ct limit st"
proof (induction rule: bfs_reachable.induct)
  case start
  show ?case by (rule bfs_inv_initial)
next
  case (step st st')
  from bfs_step_inv[OF step.IH] step.hyps(2) show ?case by simp
qed

lemma bfs_inv_within:
  assumes "bfs_inv ct limit (pq, v)" "0 \<le> limit" "e \<in> set pq"
  shows "fst e \<le> limit"
proof -
  from assms(1,3) have "good_path ct limit (snd e) (fst e)"
    unfolding bfs_inv_def search_inv_def by auto
  then show ?thesis using assms(2) by (auto simp: good_path_def)
qed

subsection \<open>Small inputs, evaluated symbolically\<close>

lemma groups_single: "groups {p} = [{p}]"
  by (simp add: groups_def)

lemmas step_defs = stale_def move_from_def groups_single bfs_relax_def dfs_relax_def trip_time_def
      apply_move_def improves_def heappush_def heappop_def below_best_def push_moves_def Let_def
      not_less

lemma single_bfs_step1:
  "bfs_step [(p, d)] limit ([(0, [({p}, {}, Start)])], [({p}, {}, Start) \<mapsto> 0]) =
     (if d \<le> limit
      then Continue ([(d, [({p}, {}, Start), ({}, {p}, End)])],
                     [({p}, {}, Start) \<mapsto> 0, ({}, {p}, End) \<mapsto> d])
      else Continue ([], [({p}, {}, Start) \<mapsto> 0]))"
  by (simp add: bfs_step_def step_defs)

lemma single_bfs_step2:
  "d \<le> limit \<Longrightarrow> bfs_step [(p, d)] limit ([(d, [({p}, {}, Start), ({}, {p}, End)])], v) =
     Return (Some d, Some [({p}, {}, Start), ({}, {p}, End)], v)"
  by (simp add: bfs_step_def step_defs)

lemma bfs_step_empty: "bfs_step ct limit ([], v) = Return (None, None, v)"
  by (simp add: bfs_step_def)

lemma bfs_loop_empty: "bfs_loop ct limit ([], v) = Some (Inr (None, None, v))"
  by (subst bfs_loop.simps) (simp add: bfs_step_empty)

lemma single_bfs:
  "solve_bridge_problem_bfs [(p, d)] limit =
     (if d \<le> limit
      then Some (Inr (Some d, Some [({p}, {}, Start), ({}, {p}, End)],
             [({p}, {}, Start) \<mapsto> 0, ({}, {p}, End) \<mapsto> d]))
      else Some (Inr (None, None, [({p}, {}, Start) \<mapsto> 0])))"
proof -
  have l: "bfs_loop [(p, d)] limit ([(d, [({p}, {}, Start), ({}, {p}, End)])], v) =
      Some (Inr (Some d, Some [({p}, {}, Start), ({}, {p}, End)], v))" if "d \<le> limit" for v
    by (subst bfs_loop.simps) (simp add: single_bfs_step2 that)
  show ?thesis
    unfolding solve_bridge_problem_bfs_def Let_def initial_state_def all_people_def
    by (subst bfs_loop.simps) (simp add: single_bfs_step1 l bfs_loop_empty)
qed

lemma single_dfs_step1:
  "0 \<le> limit \<Longrightarrow>
   dfs_step [(p, d)] limit
     ([(0, [({p}, {}, Start)], ({p}, {}, Start))], [({p}, {}, Start) \<mapsto> 0], None, None) =
     (if d \<le> limit
      then Continue ([(d, [({p}, {}, Start), ({}, {p}, End)], ({}, {p}, End))],
                     [({p}, {}, Start) \<mapsto> 0, ({}, {p}, End) \<mapsto> d], None, None)
      else Continue ([], [({p}, {}, Start) \<mapsto> 0], None, None))"
  by (simp add: dfs_step_def step_defs)

lemma single_dfs_step1_neg:
  "\<not> 0 \<le> limit \<Longrightarrow>
   dfs_step [(p, d)] limit
     ([(0, [({p}, {}, Start)], ({p}, {}, Start))], [({p}, {}, Start) \<mapsto> 0], None, None) =
     Continue ([], [({p}, {}, Start) \<mapsto> 0], None, None)"
  by (simp add: dfs_step_def step_defs)

lemma single_dfs_step2:
  "d \<le> limit \<Longrightarrow> dfs_step [(p, d)] limit ([(d, path, ({}, {p}, End))], v, None, None) =
     Continue ([], v, Some d, Some path)"
  by (simp add: dfs_step_def step_defs)

lemma dfs_step_empty: "dfs_step ct limit ([], v, best, bp) = Return (best, bp, v)"
  by (simp add: dfs_step_def)

lemma dfs_loop_empty: "dfs_loop ct limit ([], v, best, bp) = Some (Inr (best, bp, v))"
  by (subst dfs_loop.simps) (simp add: dfs_step_empty)

lemma single_dfs:
  assumes "0 \<le> d"
  shows "solve_bridge_problem_dfs [(p, d)] limit =
     (if d \<le> limit
      then Some (Inr (Some d, Some [({p}, {}, Start), ({}, {p}, End)],
             [({p}, {}, Start) \<mapsto> 0, ({}, {p}, End) \<mapsto> d]))
      else Some (Inr (None, None, [({p}, {}, Start) \<mapsto> 0])))"
proof -
  have l: "dfs_loop [(p, d)] limit ([(d, path, ({}, {p}, End))], v, None, None) =
      Some (Inr (Some d, Some path, v))" if "d \<le> limit" for v path
    by (subst dfs_loop.simps) (simp add: single_dfs_step2 that dfs_loop_empty)
  show ?thesis
  proof (cases "0 \<le> limit")
    case True
    show ?thesis
      unfolding solve_bridge_problem_dfs_def Let_def initial_state_def all_people_def
      by (subst dfs_loop.simps) (simp add: single_dfs_step1[OF True] l dfs_loop_empty)
  next
    case False
    then have "\<not> d \<le> limit" using assms by simp
    then show ?thesis
      unfolding solve_bridge_problem_dfs_def Let_def initial_state_def all_people_def
      by (subst dfs_loop.simps) (simp add: single_dfs_step1_neg[OF False] dfs_loop_empty)
  qed
qed

lemma empty_bfs:
  assumes "0 \<le> limit"
  shows "solve_bridge_problem_bfs [] limit =
     Some (Inr (Some 0, Some [({}, {}, Start)], [({}, {}, Start) \<mapsto> 0]))"
  unfolding solve_bridge_problem_bfs_def Let_def initial_state_def all_people_def
  by (subst bfs_loop.simps) (simp add: bfs_step_def heappop_def assms)

lemma empty_dfs:
  assumes "0 \<le> limit"
  shows "solve_bridge_problem_dfs [] limit =
     Some (Inr (Some 0, Some [({}, {}, Start)], [({}, {}, Start) \<mapsto> 0]))"
  unfolding solve_bridge_problem_dfs_def Let_def initial_state_def all_people_def
  by (subst dfs_loop.simps) (simp add: dfs_step_def below_best_def assms dfs_loop_empty)

subsection \<open>The scenarios, evaluated\<close>

lemma family_nonneg: "nonneg_times family_times"
  by code_simp



lemma family_bfs_60:
  "answer (solve_bridge_problem_bfs family_times 60) = Some (Inr (Some 60, Some canonical_path))"
  by code_simp

lemma family_dfs_60:
  "answer (solve_bridge_problem_dfs family_times 60) = Some (Inr (Some 60, Some canonical_path))"
  by code_simp

lemma family_bfs_15: "answer (solve_bridge_problem_bfs family_times 15) = Some (Inr (None, None))"
  by code_simp

lemma family_dfs_15: "answer (solve_bridge_problem_dfs family_times 15) = Some (Inr (None, None))"
  by code_simp

lemma first_crossing_path:
  "first_crossing \<noteq> [] \<and> hd first_crossing = initial_state family_times \<and>
   valid_path first_crossing \<and> path_cost family_times first_crossing \<le> 15"
  by code_simp

lemma first_crossing_last: "last first_crossing = ({''G'', ''H''}, {''A'', ''B''}, End)"
  by (simp add: first_crossing_def)

lemma first_crossing_cost: "path_cost family_times first_crossing = 10"
  by code_simp






subsection \<open>The reporter's loop, and two small facts\<close>

lemma print_steps_all:
  "\<forall>cfg \<in> set path. visited_times_map cfg \<noteq> None \<Longrightarrow>
   print_steps visited_times_map i path =
     (concat (map (\<lambda>j. step_lines (i + j) (path ! j) (path ! Suc j)
                          (the (visited_times_map (path ! j)))
                          (the (visited_times_map (path ! Suc j))))
                [0..<length path - 1]),
      None)"
proof (induction visited_times_map i path rule: print_steps.induct)
  case (1 vm i c c' rest)
  from "1.prems" obtain t t' where t: "vm c = Some t" "vm c' = Some t'" by auto
  have rest: "\<forall>cfg \<in> set (c' # rest). vm cfg \<noteq> None" using "1.prems" by simp
  note IH = "1.IH"[OF t(2) t(1) rest]
  show ?case
    using t IH by (simp add: map_upt_Suc del: upt_Suc)
qed simp_all

lemma bfs_time_within:
  assumes "solve_bridge_problem_bfs ct limit = Some (Inr (Some T, bp, v))"
  shows "T \<le> limit"
proof -
  from bfs_partial[OF assms] have "bfs_post ct limit (Some T, bp, v)" by simp
  then show ?thesis by (auto simp: bfs_post_def)
qed

lemma single_path_cost: "path_cost [(p, d)] [({p}, {}, Start), ({}, {p}, End)] = d"
  by (simp add: moved_people_def group_cost_def)

section \<open>The claims\<close>







text \<open>
  Claim C4. For the durations A:5, B:10, G:20, H:25, both solvers return the time 60 when
  the limit is 60, and both return no time and no path when the limit is 15.
\<close>

theorem family_scenario:
  "(\<exists>path visited. solve_bridge_problem_bfs family_times 60 = Some (Inr (Some 60, Some path, visited))) \<and>
   (\<exists>path visited. solve_bridge_problem_dfs family_times 60 = Some (Inr (Some 60, Some path, visited))) \<and>
   (\<exists>visited. solve_bridge_problem_bfs family_times 15 = Some (Inr (None, None, visited))) \<and>
   (\<exists>visited. solve_bridge_problem_dfs family_times 15 = Some (Inr (None, None, visited)))"
  using answerD[OF family_bfs_60] answerD[OF family_dfs_60]
    answerD[OF family_bfs_15] answerD[OF family_dfs_15]
  by blast

text \<open>
  Claim C5. Durations are not negative. When no complete path stays within the limit, each
  solver ends normally (it returns a value and raises nothing), its result has no time and
  no path, and it carries the map of visited configurations that the exhausted search
  has accumulated: the initial configuration at time 0, every recorded time the cost of a
  path from the initial configuration to the configuration it is recorded for, and every
  configuration that a path within the limit reaches recorded at a time not above the
  cost of that path.
\<close>

theorem no_solution_is_a_result:
  assumes "nonneg_times crossing_times"
    and "\<forall>q. complete_path crossing_times q \<longrightarrow> time_limit < path_cost crossing_times q"
  shows "\<exists>visited_bfs visited_dfs.
           solve_bridge_problem_bfs crossing_times time_limit = Some (Inr (None, None, visited_bfs)) \<and>
           solve_bridge_problem_dfs crossing_times time_limit = Some (Inr (None, None, visited_dfs)) \<and>
           searched_map crossing_times time_limit visited_bfs \<and>
           searched_map crossing_times time_limit visited_dfs"
proof -
  from bfs_total[OF assms(1), of time_limit] obtain bt bp v where
    r: "solve_bridge_problem_bfs crossing_times time_limit = Some (Inr (bt, bp, v))"
    and post: "bfs_post crossing_times time_limit (bt, bp, v)"
    and opt: "optimal_result crossing_times time_limit (bt, bp, v)"
    by (metis prod_cases3)
  from dfs_total[OF assms(1), of time_limit] obtain bt' bp' v' where
    r': "solve_bridge_problem_dfs crossing_times time_limit = Some (Inr (bt', bp', v'))"
    and post': "dfs_post crossing_times time_limit (bt', bp', v')"
    and opt': "optimal_result crossing_times time_limit (bt', bp', v')"
    by (metis prod_cases3)
  have n: "bt = None" "bp = None" using optimal_result_none[OF opt assms(2)] by simp_all
  have n': "bt' = None" "bp' = None" using optimal_result_none[OF opt' assms(2)] by simp_all
  have i: "search_inv crossing_times time_limit {} {} v None"
    using post n by (simp add: bfs_post_def)
  have i': "search_inv crossing_times time_limit {} {} v' None"
    using post' n' by (simp add: dfs_post_def)
  show ?thesis
    using r r' n n' exhausted_searched_map[OF assms(1) i] exhausted_searched_map[OF assms(1) i']
    by blast
qed

theorem no_solution_is_a_result_witness:
  "nonneg_times family_times \<and>
   (\<exists>visited_bfs visited_dfs.
      solve_bridge_problem_bfs family_times 15 = Some (Inr (None, None, visited_bfs)) \<and>
      solve_bridge_problem_dfs family_times 15 = Some (Inr (None, None, visited_dfs)) \<and>
      searched_map family_times 15 visited_bfs \<and>
      searched_map family_times 15 visited_dfs \<and>
      visited_bfs (initial_state family_times) = Some 0 \<and>
      visited_dfs (initial_state family_times) = Some 0 \<and>
      (\<exists>t. visited_bfs ({''G'', ''H''}, {''A'', ''B''}, End) = Some t \<and> t \<le> 10) \<and>
      (\<exists>t. visited_dfs ({''G'', ''H''}, {''A'', ''B''}, End) = Some t \<and> t \<le> 10))"
proof -
  from answerD[OF family_bfs_15] obtain v where
    r: "solve_bridge_problem_bfs family_times 15 = Some (Inr (None, None, v))" by blast
  from bfs_total[OF family_nonneg, of 15] r
  have "optimal_result family_times 15 (None, None, v)" by auto
  then have none: "\<forall>q. complete_path family_times q \<longrightarrow> 15 < path_cost family_times q"
    by (simp add: optimal_result_def)
  from no_solution_is_a_result[OF family_nonneg none] obtain vb vd where
    rs: "solve_bridge_problem_bfs family_times 15 = Some (Inr (None, None, vb))"
      "solve_bridge_problem_dfs family_times 15 = Some (Inr (None, None, vd))"
    and sm: "searched_map family_times 15 vb" "searched_map family_times 15 vd"
    by blast
  have reach: "\<exists>t. w ({''G'', ''H''}, {''A'', ''B''}, End) = Some t \<and> t \<le> 10"
    if "searched_map family_times 15 w" for w
  proof -
    from that first_crossing_path
    have "\<exists>t. w (last first_crossing) = Some t \<and> t \<le> path_cost family_times first_crossing"
      unfolding searched_map_def by blast
    then show ?thesis by (simp add: first_crossing_last first_crossing_cost)
  qed
  have zero: "w (initial_state family_times) = Some 0" if "searched_map family_times 15 w" for w
    using that unfolding searched_map_def by blast
  show ?thesis
    using family_nonneg rs sm reach[OF sm(1)] reach[OF sm(2)] zero[OF sm(1)] zero[OF sm(2)]
    by blast
qed

text \<open>
  Claim C6, as the code has it. For an empty set of people and a limit that is not
  negative, both solvers return the time 0 and the path that consists of the initial
  configuration alone: the initial configuration has an empty start side, so it is
  popped as a solution at time 0. Neither solver reports the absence of a solution.
\<close>

theorem empty_people_solved:
  assumes "0 \<le> time_limit"
  shows "solve_bridge_problem_bfs [] time_limit =
           Some (Inr (Some 0, Some [({}, {}, Start)], [({}, {}, Start) \<mapsto> 0])) \<and>
         solve_bridge_problem_dfs [] time_limit =
           Some (Inr (Some 0, Some [({}, {}, Start)], [({}, {}, Start) \<mapsto> 0]))"
  using empty_bfs[OF assms] empty_dfs[OF assms] by simp

theorem empty_people_solved_witness:
  "(0 :: int) \<le> 60 \<and>
   solve_bridge_problem_bfs ([] :: (string \<times> int) list) 60 =
     Some (Inr (Some 0, Some [({}, {}, Start)], [({}, {}, Start) \<mapsto> 0])) \<and>
   solve_bridge_problem_dfs ([] :: (string \<times> int) list) 60 =
     Some (Inr (Some 0, Some [({}, {}, Start)], [({}, {}, Start) \<mapsto> 0]))"
  using empty_people_solved[of 60] by simp

text \<open>
  The claim as the specification states it (no solution for the empty set) fails: at the
  limit 60 neither solver returns a result without a time.
\<close>

theorem empty_people_counterexample:
  "\<not> (\<exists>path visited. solve_bridge_problem_bfs ([] :: (string \<times> int) list) 60 =
         Some (Inr (None, path, visited))) \<and>
   \<not> (\<exists>path visited. solve_bridge_problem_dfs ([] :: (string \<times> int) list) 60 =
         Some (Inr (None, path, visited)))"
proof -
  have b: "solve_bridge_problem_bfs ([] :: (string \<times> int) list) 60 =
      Some (Inr (Some 0, Some [({}, {}, Start)], [({}, {}, Start) \<mapsto> 0]))"
    by (rule empty_bfs) simp
  have d: "solve_bridge_problem_dfs ([] :: (string \<times> int) list) 60 =
      Some (Inr (Some 0, Some [({}, {}, Start)], [({}, {}, Start) \<mapsto> 0]))"
    by (rule empty_dfs) simp
  show ?thesis unfolding b d by simp
qed



text \<open>
  Claim C8. For a single person with a duration that is not negative, each solver returns
  that duration and the path of one direct crossing (which costs the duration) when the
  duration is within the limit, and otherwise a result with no time and no path.
\<close>

theorem single_person:
  assumes "0 \<le> duration"
  shows "solve_bridge_problem_bfs [(person, duration)] time_limit =
           (if duration \<le> time_limit
            then Some (Inr (Some duration, Some [({person}, {}, Start), ({}, {person}, End)],
                   [({person}, {}, Start) \<mapsto> 0, ({}, {person}, End) \<mapsto> duration]))
            else Some (Inr (None, None, [({person}, {}, Start) \<mapsto> 0]))) \<and>
         solve_bridge_problem_dfs [(person, duration)] time_limit =
           (if duration \<le> time_limit
            then Some (Inr (Some duration, Some [({person}, {}, Start), ({}, {person}, End)],
                   [({person}, {}, Start) \<mapsto> 0, ({}, {person}, End) \<mapsto> duration]))
            else Some (Inr (None, None, [({person}, {}, Start) \<mapsto> 0]))) \<and>
         path_cost [(person, duration)] [({person}, {}, Start), ({}, {person}, End)] = duration"
  using single_bfs[of person duration time_limit] single_dfs[OF assms, of person time_limit]
    single_path_cost[of person duration]
  by simp

theorem single_person_witness:
  "(0 :: int) \<le> 5 \<and>
   solve_bridge_problem_bfs [(''A'', 5)] 7 =
     Some (Inr (Some 5, Some [({''A''}, {}, Start), ({}, {''A''}, End)],
       [({''A''}, {}, Start) \<mapsto> 0, ({}, {''A''}, End) \<mapsto> 5])) \<and>
   solve_bridge_problem_dfs [(''A'', 5)] 7 =
     Some (Inr (Some 5, Some [({''A''}, {}, Start), ({}, {''A''}, End)],
       [({''A''}, {}, Start) \<mapsto> 0, ({}, {''A''}, End) \<mapsto> 5])) \<and>
   solve_bridge_problem_bfs [(''A'', 5)] 3 = Some (Inr (None, None, [({''A''}, {}, Start) \<mapsto> 0])) \<and>
   solve_bridge_problem_dfs [(''A'', 5)] 3 = Some (Inr (None, None, [({''A''}, {}, Start) \<mapsto> 0]))"
  using single_person[of 5 "''A''" 7] single_person[of 5 "''A''" 3] by simp

text \<open>
  Claim C9, for people that are strings. Given no path or an empty path,
  \<open>print_bridge_solution\<close> writes the header and the line that no solution could be
  found, whatever the map of arrival times holds, and raises nothing. Given a path that is
  not empty and whose configurations all have an arrival time, it raises nothing and
  writes, for each consecutive pair of configurations, a step whose duration is the
  arrival time of the second minus that of the first. When the umbrella is on the start
  side in the first of the two, the people of the step are those of its start side that
  are not on the start side of the second, and the arrow points to the end side;
  otherwise the people are those on the start side of the second that are not on the
  start side of the first, and the arrow points to the start side.
\<close>

theorem reporter_output:
  "print_bridge_solution total_time None times' visited_times_map algorithm_name =
     ([Header algorithm_name, NoSolution], None) \<and>
   print_bridge_solution total_time (Some []) times' visited_times_map algorithm_name =
     ([Header algorithm_name, NoSolution], None) \<and>
   (path \<noteq> [] \<and> (\<forall>cfg \<in> set path. visited_times_map cfg \<noteq> None) \<longrightarrow>
    print_bridge_solution total_time (Some path) times' visited_times_map algorithm_name =
      (Header algorithm_name # Found total_time # Rule #
       concat (map (\<lambda>i.
          [StepLine (i + 1)
             (sorted_list_of_set
                (if snd (snd (path ! i)) = Start then fst (path ! i) - fst (path ! (i + 1))
                 else fst (path ! (i + 1)) - fst (path ! i)))
             (if snd (snd (path ! i)) = Start then ''-->'' else ''<--'')
             (the (visited_times_map (path ! (i + 1))) - the (visited_times_map (path ! i))),
           Elapsed (the (visited_times_map (path ! (i + 1)))),
           StartSide (sorted_list_of_set (fst (path ! (i + 1)))),
           EndSide (sorted_list_of_set (fst (snd (path ! (i + 1))))),
           Rule]) [0..<length path - 1]),
       None))"
proof -
  have "print_bridge_solution total_time (Some path) times' visited_times_map algorithm_name =
      (Header algorithm_name # Found total_time # Rule #
       concat (map (\<lambda>i.
          [StepLine (i + 1)
             (sorted_list_of_set
                (if snd (snd (path ! i)) = Start then fst (path ! i) - fst (path ! (i + 1))
                 else fst (path ! (i + 1)) - fst (path ! i)))
             (if snd (snd (path ! i)) = Start then ''-->'' else ''<--'')
             (the (visited_times_map (path ! (i + 1))) - the (visited_times_map (path ! i))),
           Elapsed (the (visited_times_map (path ! (i + 1)))),
           StartSide (sorted_list_of_set (fst (path ! (i + 1)))),
           EndSide (sorted_list_of_set (fst (snd (path ! (i + 1))))),
           Rule]) [0..<length path - 1]),
       None)"
    if ne: "path \<noteq> []" and all: "\<forall>cfg \<in> set path. visited_times_map cfg \<noteq> None"
  proof -
    from ne obtain c cs where p: "path = c # cs" by (cases path) auto
    show ?thesis
      unfolding print_bridge_solution_def p
      using print_steps_all[OF all, of 0] p
      by (simp add: step_lines_def moved_people_def direction_def cong: if_cong)
  qed
  then show ?thesis by (simp add: print_bridge_solution_def)
qed

theorem reporter_output_witness:
  "print_bridge_solution None None family_times Map.empty ''DFS'' =
     ([Header ''DFS'', NoSolution], None) \<and>
   canonical_path \<noteq> [] \<and>
   list_all (\<lambda>cfg. canonical_times cfg \<noteq> None) canonical_path \<and>
   print_bridge_solution (Some 60) (Some canonical_path) family_times canonical_times ''DFS'' =
     ([Header ''DFS'', Found (Some 60), Rule,
       StepLine 1 [''A'', ''B''] ''-->'' 10, Elapsed 10,
         StartSide [''G'', ''H''], EndSide [''A'', ''B''], Rule,
       StepLine 2 [''A''] ''<--'' 5, Elapsed 15,
         StartSide [''A'', ''G'', ''H''], EndSide [''B''], Rule,
       StepLine 3 [''G'', ''H''] ''-->'' 25, Elapsed 40,
         StartSide [''A''], EndSide [''B'', ''G'', ''H''], Rule,
       StepLine 4 [''B''] ''<--'' 10, Elapsed 50,
         StartSide [''A'', ''B''], EndSide [''G'', ''H''], Rule,
       StepLine 5 [''A'', ''B''] ''-->'' 10, Elapsed 60,
         StartSide [], EndSide [''A'', ''B'', ''G'', ''H''], Rule],
      None)"
proof -
  have ne: "canonical_path \<noteq> []" by (simp add: canonical_path_def)
  have la: "list_all (\<lambda>cfg. canonical_times cfg \<noteq> None) canonical_path" by code_simp
  then have h: "canonical_path \<noteq> [] \<and> (\<forall>cfg \<in> set canonical_path. canonical_times cfg \<noteq> None)"
    using ne by (simp add: list_all_iff)
  have e: "concat (map (\<lambda>i.
          [StepLine (i + 1)
             (sorted_list_of_set
                (if snd (snd (canonical_path ! i)) = Start then fst (canonical_path ! i) - fst (canonical_path ! (i + 1))
                 else fst (canonical_path ! (i + 1)) - fst (canonical_path ! i)))
             (if snd (snd (canonical_path ! i)) = Start then ''-->'' else ''<--'')
             (the (canonical_times (canonical_path ! (i + 1))) - the (canonical_times (canonical_path ! i))),
           Elapsed (the (canonical_times (canonical_path ! (i + 1)))),
           StartSide (sorted_list_of_set (fst (canonical_path ! (i + 1)))),
           EndSide (sorted_list_of_set (fst (snd (canonical_path ! (i + 1))))),
           Rule]) [0..<length canonical_path - 1]) =
      [StepLine 1 [''A'', ''B''] ''-->'' 10, Elapsed 10,
         StartSide [''G'', ''H''], EndSide [''A'', ''B''], Rule,
       StepLine 2 [''A''] ''<--'' 5, Elapsed 15,
         StartSide [''A'', ''G'', ''H''], EndSide [''B''], Rule,
       StepLine 3 [''G'', ''H''] ''-->'' 25, Elapsed 40,
         StartSide [''A''], EndSide [''B'', ''G'', ''H''], Rule,
       StepLine 4 [''B''] ''<--'' 10, Elapsed 50,
         StartSide [''A'', ''B''], EndSide [''G'', ''H''], Rule,
       StepLine 5 [''A'', ''B''] ''-->'' 10, Elapsed 60,
         StartSide [], EndSide [''A'', ''B'', ''G'', ''H''], Rule]"
    by code_simp
  from reporter_output[of None family_times Map.empty "''DFS''" canonical_path]
  have a: "print_bridge_solution None None family_times Map.empty ''DFS'' =
      ([Header ''DFS'', NoSolution], None)"
    by blast
  from reporter_output[of "Some 60" family_times canonical_times "''DFS''" canonical_path] h
  have "print_bridge_solution (Some 60) (Some canonical_path) family_times canonical_times ''DFS'' =
      (Header ''DFS'' # Found (Some 60) # Rule #
       concat (map (\<lambda>i.
          [StepLine (i + 1)
             (sorted_list_of_set
                (if snd (snd (canonical_path ! i)) = Start then fst (canonical_path ! i) - fst (canonical_path ! (i + 1))
                 else fst (canonical_path ! (i + 1)) - fst (canonical_path ! i)))
             (if snd (snd (canonical_path ! i)) = Start then ''-->'' else ''<--'')
             (the (canonical_times (canonical_path ! (i + 1))) - the (canonical_times (canonical_path ! i))),
           Elapsed (the (canonical_times (canonical_path ! (i + 1)))),
           StartSide (sorted_list_of_set (fst (canonical_path ! (i + 1)))),
           EndSide (sorted_list_of_set (fst (snd (canonical_path ! (i + 1))))),
           Rule]) [0..<length canonical_path - 1]),
       None)"
    by blast
  with a ne la show ?thesis unfolding e by simp
qed

text \<open>
  Claim C10. With a limit that is not negative, in every state that the loop of
  \<open>solve_bridge_problem_bfs\<close> reaches, every entry of the queue has a time within the
  limit; so has the entry that is popped next, and the branch that discards a popped goal
  configuration for exceeding the limit is never taken. A time that an iteration or the
  solver returns is within the limit.
\<close>

theorem queue_within_limit:
  assumes "0 \<le> time_limit"
    and "bfs_reachable crossing_times time_limit (pq, visited_times)"
  shows "(\<forall>entry \<in> set pq. fst entry \<le> time_limit) \<and>
         (\<forall>current_time path pq'. heappop pq = Inr ((current_time, path), pq') \<longrightarrow>
            current_time \<le> time_limit \<and>
            \<not> (fst (last path) = {} \<and> \<not> current_time \<le> time_limit)) \<and>
         (\<forall>best_time path visited.
            bfs_step crossing_times time_limit (pq, visited_times) =
              Return (Some best_time, path, visited) \<longrightarrow> best_time \<le> time_limit) \<and>
         (\<forall>best_time path visited.
            solve_bridge_problem_bfs crossing_times time_limit =
              Some (Inr (Some best_time, path, visited)) \<longrightarrow> best_time \<le> time_limit)"
proof -
  have inv: "bfs_inv crossing_times time_limit (pq, visited_times)"
    using assms(2) by (rule bfs_reachable_inv)
  have 1: "fst entry \<le> time_limit" if "entry \<in> set pq" for entry
    using inv assms(1) that by (rule bfs_inv_within)
  have 2: "current_time \<le> time_limit" if "heappop pq = Inr ((current_time, path), pq')"
    for current_time path pq'
  proof -
    from that obtain e es where pq: "pq = e # es" and pm: "pop_min e es = ((current_time, path), pq')"
      by (cases pq) (auto simp: heappop_def)
    from pop_min_set[OF pm] pq have "(current_time, path) \<in> set pq" by auto
    from 1[OF this] show ?thesis by simp
  qed
  have 3: "best_time \<le> time_limit"
    if "bfs_step crossing_times time_limit (pq, visited_times) = Return (Some best_time, path, visited)"
    for best_time path visited
    using bfs_step_inv[OF inv] that by (auto simp: bfs_post_def)
  show ?thesis using 1 2 3 bfs_time_within by blast
qed

theorem queue_within_limit_witness:
  "(0 :: int) \<le> 2 \<and>
   bfs_reachable pair_times 2 ([(0, [initial_state pair_times])], [initial_state pair_times \<mapsto> 0]) \<and>
   (\<exists>current_time path pq'.
      heappop [(0, [initial_state pair_times])] = Inr ((current_time, path), pq') \<and>
      current_time \<le> 2)"
proof -
  have t: "(0 :: int) \<le> 2" by simp
  have r: "bfs_reachable pair_times 2 ([(0, [initial_state pair_times])], [initial_state pair_times \<mapsto> 0])"
    by (rule bfs_reachable.start)
  have h: "heappop [(0, [initial_state pair_times])] = Inr ((0 :: int, [initial_state pair_times]), [])"
    by (simp add: heappop_def)
  from queue_within_limit[OF t r]
  have "\<forall>current_time path pq'.
          heappop [(0, [initial_state pair_times])] = Inr ((current_time, path), pq') \<longrightarrow>
          current_time \<le> 2"
    by blast
  with h have "\<exists>current_time path pq'.
      heappop [(0, [initial_state pair_times])] = Inr ((current_time, path), pq') \<and>
      current_time \<le> 2"
    by blast
  with t r show ?thesis by blast
qed

end
